theory Spec2Isabelle
  imports Complex_Main "HOL-Library.Word" "HOL-Library.Product_Lexorder" "HOL-Library.List_Lexorder"
begin

unbundle bit_operations_syntax

section \<open>Machine types and library containers\<close>

text \<open>
  The text layout cache of \<^verbatim>\<open>core/jni/android/graphics/TextLayoutCache.cpp\<close>.
  Code units, glyph ids and log clusters are 16-bit words; the shaper's glyph ids are
  32-bit words. Sizes, counts and indices (\<^verbatim>\<open>size_t\<close>, \<^verbatim>\<open>uint32_t\<close>) are natural
  numbers: they count slots of buffers that exist in memory, and allocation is taken to
  succeed. \<^verbatim>\<open>jfloat\<close> values are exact rationals, so float rounding is abstracted away.
\<close>

type_synonym UChar = "16 word"
type_synonym jchar = "16 word"
type_synonym jfloat = rat
type_synonym HB_Fixed = int
type_synonym HB_Glyph = "32 word"

text \<open>
  Modelled from the spec: \<^verbatim>\<open>HBFixedToFloat\<close> is declared in a header that is not part of
  the sources; the shaper's advances are 26.6 fixed-point values.
\<close>

definition HBFixedToFloat :: "HB_Fixed \<Rightarrow> jfloat" where
  "HBFixedToFloat v = of_int v / 64"

text \<open>
  A read \<^verbatim>\<open>a[i]\<close> of a C array or of a \<^verbatim>\<open>Vector\<close>: outside the allocated slots the C++
  behaviour is undefined, which the model reports as \<open>None\<close>.
\<close>

definition rd :: "'a list \<Rightarrow> nat \<Rightarrow> 'a option" where
  "rd xs i = (if i < length xs then Some (xs ! i) else None)"

text \<open>A counted \<^verbatim>\<open>for\<close> loop over the given indices whose body may have no result.\<close>

fun for_loop :: "nat list \<Rightarrow> (nat \<Rightarrow> 's \<Rightarrow> 's option) \<Rightarrow> 's \<Rightarrow> 's option" where
  "for_loop [] body s = Some s"
| "for_loop (i # is) body s =
     (case body i s of None \<Rightarrow> None | Some s' \<Rightarrow> for_loop is body s')"

text \<open>
  Modelled from the spec: \<^verbatim>\<open>Vector\<close> (utils/Vector.h) is not part of the sources. A
  vector holds its items and a capacity; the artifact's reported size counts
  capacities. The growth policy \<open>grow\<close> (old capacity, required size) is a parameter.
\<close>

record 'a Vector =
  items :: "'a list"
  capacity :: nat

definition empty_Vector :: "'a Vector" where
  "empty_Vector = \<lparr>items = [], capacity = 0\<rparr>"

definition setCapacity :: "nat \<Rightarrow> 'a Vector \<Rightarrow> 'a Vector" where
  "setCapacity new_capacity v =
     (if new_capacity \<le> length (items v) then v else v\<lparr>capacity := new_capacity\<rparr>)"

definition insertAt :: "(nat \<Rightarrow> nat \<Rightarrow> nat) \<Rightarrow> 'a \<Rightarrow> nat \<Rightarrow> nat \<Rightarrow> 'a Vector \<Rightarrow> 'a Vector" where
  "insertAt grow item index numItems v =
     \<lparr>items = take index (items v) @ replicate numItems item @ drop index (items v),
      capacity = (if capacity v < length (items v) + numItems
                  then grow (capacity v) (length (items v) + numItems) else capacity v)\<rparr>"

definition add :: "(nat \<Rightarrow> nat \<Rightarrow> nat) \<Rightarrow> 'a \<Rightarrow> 'a Vector \<Rightarrow> 'a Vector" where
  "add grow item v = insertAt grow item (length (items v)) 1 v"

section \<open>The artifact: TextLayoutCacheValue\<close>

record TextLayoutCacheValue =
  mAdvances :: "jfloat Vector"
  mTotalAdvance :: jfloat
  mGlyphs :: "jchar Vector"
  mLogClusters :: "16 word Vector"
  mElapsedTime :: nat

definition new_TextLayoutCacheValue :: TextLayoutCacheValue where
  "new_TextLayoutCacheValue =
     \<lparr>mAdvances = empty_Vector, mTotalAdvance = 0, mGlyphs = empty_Vector,
      mLogClusters = empty_Vector, mElapsedTime = 0\<rparr>"

subsection \<open>getGlyphsIndexAndCount\<close>

text \<open>
  One iteration of the loop over the glyphs; the state is
  \<open>(*outStartIndex, endIndex)\<close>. The \<^verbatim>\<open>continue\<close> of the first test is the first branch.
\<close>

definition glyphs_index_body ::
  "16 word list \<Rightarrow> nat \<Rightarrow> nat \<Rightarrow> nat \<Rightarrow> nat \<times> nat \<Rightarrow> (nat \<times> nat) option" where
  "glyphs_index_body logClusters start cnt i st =
     (case rd logClusters i of
        None \<Rightarrow> None
      | Some c \<Rightarrow>
          if unat c \<le> start then Some (i, i)
          else if unat c \<le> start + cnt then Some (fst st, i)
          else Some st)"

text \<open>
  The result is \<open>(*outStartIndex, *outGlyphsCount)\<close>. The subtraction
  \<^verbatim>\<open>endIndex - *outStartIndex + 1\<close> is on \<^verbatim>\<open>size_t\<close>; lemma \<open>glyphs_index_loop_le\<close> below
  shows that the start index never exceeds the end index, so it does not wrap.
\<close>

definition getGlyphsIndexAndCount ::
  "TextLayoutCacheValue \<Rightarrow> nat \<Rightarrow> nat \<Rightarrow> (nat \<times> nat) option" where
  "getGlyphsIndexAndCount v start cnt =
     (if cnt = 0 then Some (0, 0)
      else
        (case for_loop [0..<length (items (mGlyphs v))]
                (glyphs_index_body (items (mLogClusters v)) start cnt) (0, 0) of
           None \<Rightarrow> None
         | Some (startIndex, endIndex) \<Rightarrow> Some (startIndex, endIndex - startIndex + 1)))"

text \<open>
  The glyph indices below \<open>n\<close> whose log cluster is at most \<open>bound\<close>; the claims
  about \<open>getGlyphsIndexAndCount\<close> speak of the largest of them.
\<close>

definition le_set :: "16 word list \<Rightarrow> nat \<Rightarrow> nat \<Rightarrow> nat set" where
  "le_set lcs n bound = set (filter (\<lambda>i. unat (lcs ! i) \<le> bound) [0..<n])"

section \<open>The key: TextLayoutCacheKey\<close>

text \<open>
  The paint as the cache reads it, through its getters. A typeface is a pointer, compared
  by address.
\<close>

record SkPaint =
  getTypeface :: nat
  getTextSize :: jfloat
  getTextSkewX :: jfloat
  getTextScaleX :: jfloat
  getFlags :: "32 word"
  getHinting :: nat

text \<open>
  The field \<^verbatim>\<open>text\<close> is a borrowed pointer to the caller's code units (\<open>None\<close> is the
  null pointer), \<^verbatim>\<open>textCopy\<close> the owned copy made by \<open>internalTextCopy\<close>. The copy
  constructor is called by no function of this file and is not modelled.
\<close>

record TextLayoutCacheKey =
  text_ptr :: "UChar list option"
  textCopy :: "UChar list"
  count :: nat
  dirFlags :: int
  typeface :: nat
  textSize :: jfloat
  textSkewX :: jfloat
  textScaleX :: jfloat
  flags :: "32 word"
  hinting :: nat

definition new_TextLayoutCacheKey :: "SkPaint \<Rightarrow> UChar list \<Rightarrow> nat \<Rightarrow> int \<Rightarrow> TextLayoutCacheKey" where
  "new_TextLayoutCacheKey paint chars cnt dirs =
     \<lparr>text_ptr = Some chars, textCopy = [], count = cnt, dirFlags = dirs,
      typeface = getTypeface paint, textSize = getTextSize paint,
      textSkewX = getTextSkewX paint, textScaleX = getTextScaleX paint,
      flags = getFlags paint, hinting = getHinting paint\<rparr>"

text \<open>
  Modelled from the spec: \<^verbatim>\<open>getText\<close> is declared in TextLayoutCache.h, which is not part
  of the sources; after \<open>internalTextCopy\<close> the code units are read from the owned copy.
\<close>

definition getText :: "TextLayoutCacheKey \<Rightarrow> UChar list" where
  "getText k = (case text_ptr k of Some t \<Rightarrow> t | None \<Rightarrow> textCopy k)"

text \<open>
  \<^verbatim>\<open>textCopy.setTo(text, count); text = NULL\<close>. The call is made once, on a key that still
  borrows its text.
\<close>

definition internalTextCopy :: "TextLayoutCacheKey \<Rightarrow> TextLayoutCacheKey" where
  "internalTextCopy k =
     k\<lparr>textCopy := (case text_ptr k of Some t \<Rightarrow> take (count k) t | None \<Rightarrow> []),
       text_ptr := None\<rparr>"

text \<open>
  \<^verbatim>\<open>sizeof(TextLayoutCacheKey) + sizeof(UChar) * count\<close>; the size of the fixed part is a
  parameter.
\<close>

definition key_getSize :: "nat \<Rightarrow> TextLayoutCacheKey \<Rightarrow> nat" where
  "key_getSize sizeof_key k = sizeof_key + 2 * count k"

text \<open>
  The bytes of a sequence of 16-bit units as \<^verbatim>\<open>memcmp\<close> reads them, low byte first (the
  targets are little-endian).
\<close>

definition bytes_of_UChar :: "UChar \<Rightarrow> 8 word list" where
  "bytes_of_UChar u = [ucast u, ucast (drop_bit 8 u)]"

definition bytes_of :: "UChar list \<Rightarrow> 8 word list" where
  "bytes_of us = concat (map bytes_of_UChar us)"

text \<open>
  \<^verbatim>\<open>memcmp\<close> over the first \<open>n\<close> bytes: negative, zero or positive as the first differing
  byte, read as unsigned, is smaller or larger (only the sign is specified; the model
  returns -1, 0 or 1). A buffer shorter than \<open>n\<close> is not compared further.
\<close>

fun memcmp :: "8 word list \<Rightarrow> 8 word list \<Rightarrow> nat \<Rightarrow> int" where
  "memcmp (a # as) (b # bs) (Suc n) =
     (if a = b then memcmp as bs n else if a < b then - 1 else 1)"
| "memcmp as bs n = 0"

text \<open>
  Modelled from the spec: the macros \<^verbatim>\<open>LTE_INT\<close> and \<^verbatim>\<open>LTE_FLOAT\<close> are defined in a
  header that is not part of the sources. Each returns true when the field is smaller
  than the other key's, runs the nested statement when the two are equal, and otherwise
  falls through to the final \<^verbatim>\<open>return false\<close>.
\<close>

definition LTE_INT :: "'a::linorder \<Rightarrow> 'a \<Rightarrow> bool \<Rightarrow> bool" where
  "LTE_INT a b nested = (if a < b then True else if a = b then nested else False)"

definition LTE_FLOAT :: "jfloat \<Rightarrow> jfloat \<Rightarrow> bool \<Rightarrow> bool" where
  "LTE_FLOAT a b nested = (if a < b then True else if a = b then nested else False)"

text \<open>\<^verbatim>\<open>TextLayoutCacheKey::operator<\<close>.\<close>

definition operator_less :: "TextLayoutCacheKey \<Rightarrow> TextLayoutCacheKey \<Rightarrow> bool" where
  "operator_less lhs rhs =
     LTE_INT (count lhs) (count rhs)
      (LTE_INT (typeface lhs) (typeface rhs)
        (LTE_FLOAT (textSize lhs) (textSize rhs)
          (LTE_FLOAT (textSkewX lhs) (textSkewX rhs)
            (LTE_FLOAT (textScaleX lhs) (textScaleX rhs)
              (LTE_INT (flags lhs) (flags rhs)
                (LTE_INT (hinting lhs) (hinting rhs)
                  (LTE_INT (dirFlags lhs) (dirFlags rhs)
                    (memcmp (bytes_of (getText lhs)) (bytes_of (getText rhs))
                       (count lhs * 2) < 0))))))))"




section \<open>The collaborators: shaper, bidi engine, platform\<close>

datatype HB_Script = HB_Script_Common | HB_Script_Arabic

record FontData =
  fontData_typeFace :: nat
  fontData_textSize :: jfloat
  fontData_textSkewX :: jfloat
  fontData_textScaleX :: jfloat
  fontData_flags :: "32 word"
  fontData_hinting :: nat

text \<open>
  The shaper's request and result structure, with the fields this file reads or writes.
  The four glyph-side arrays and the log-cluster array are lists with one entry per
  allocated slot; \<open>advances\<close> is tested against the null pointer by the code and is
  therefore optional. The face handle and the constant font record are left out.
\<close>

record HB_ShaperItem =
  hb_string :: "UChar list"
  stringLength :: nat
  item_pos :: nat
  item_length :: nat
  item_bidiLevel :: nat
  item_script :: HB_Script
  font_userData :: "FontData option"
  num_glyphs :: nat
  glyphs :: "HB_Glyph list"
  attributes :: "nat list"
  advances :: "HB_Fixed list option"
  offsets :: "(HB_Fixed \<times> HB_Fixed) list"
  log_clusters :: "16 word list"
  kerning_applied :: bool

text \<open>
  The resolved paragraph of the bidi engine, as the code queries it:
  \<^verbatim>\<open>ubidi_getParaLevel\<close>, \<^verbatim>\<open>ubidi_countRuns\<close> (the count and the status it leaves) and
  \<^verbatim>\<open>ubidi_getVisualRun\<close> (direction, start and length of the i-th visual run).
\<close>

record UBiDi =
  ubidi_getParaLevel :: "8 word"
  ubidi_countRuns :: "nat \<times> int"
  ubidi_getVisualRun :: "nat \<Rightarrow> nat \<times> nat \<times> nat"

text \<open>
  Everything the code takes from outside this file: the complex shaper
  \<^verbatim>\<open>HB_ShapeItem\<close> (its return value and the structure as it leaves it), the bidi engine
  (whether \<^verbatim>\<open>ubidi_open\<close> gives a resolver; the status and the paragraph that
  \<^verbatim>\<open>ubidi_setPara\<close> leaves), the growth policy of \<^verbatim>\<open>Vector\<close>, the two \<^verbatim>\<open>sizeof\<close>
  constants, and the content of freshly allocated, uninitialised memory.
\<close>

record env =
  HB_ShapeItem :: "HB_ShaperItem \<Rightarrow> bool \<times> HB_ShaperItem"
  ubidi_open :: bool
  ubidi_setPara :: "UChar list \<Rightarrow> nat \<Rightarrow> 8 word \<Rightarrow> int \<times> UBiDi"
  grow :: "nat \<Rightarrow> nat \<Rightarrow> nat"
  sizeof_TextLayoutCacheKey :: nat
  sizeof_TextLayoutCacheValue :: nat
  uninitialised :: nat

text \<open>
  Modelled from the spec: the constants of TextLayout.h and of the bidi engine's headers
  are not part of the sources. The direction modes are the six values of the exposed
  enumeration; the engine's default-LTR and default-RTL sentinels are its two highest
  levels; a status is a success when it is not above \<^verbatim>\<open>U_ZERO_ERROR\<close>.
\<close>

definition kBidi_LTR :: int where "kBidi_LTR = 0"
definition kBidi_RTL :: int where "kBidi_RTL = 1"
definition kBidi_Default_LTR :: int where "kBidi_Default_LTR = 2"
definition kBidi_Default_RTL :: int where "kBidi_Default_RTL = 3"
definition kBidi_Force_LTR :: int where "kBidi_Force_LTR = 4"
definition kBidi_Force_RTL :: int where "kBidi_Force_RTL = 5"
definition kDirection_Mask :: "8 word" where "kDirection_Mask = 1"
definition UBIDI_DEFAULT_LTR :: "8 word" where "UBIDI_DEFAULT_LTR = 254"
definition UBIDI_DEFAULT_RTL :: "8 word" where "UBIDI_DEFAULT_RTL = 255"
definition UBIDI_RTL :: nat where "UBIDI_RTL = 1"
definition U_ZERO_ERROR :: int where "U_ZERO_ERROR = 0"
definition U_SUCCESS :: "int \<Rightarrow> bool" where "U_SUCCESS x = (x \<le> U_ZERO_ERROR)"

section \<open>The shaper adapter\<close>

text \<open>
  The free store, as far as the adapter allocates from it: the glyph-side arrays that
  are allocated and not freed, each by its number of slots, the youngest last.
  \<^verbatim>\<open>new T[n]\<close> adds an array of \<open>n\<close> slots; \<^verbatim>\<open>delete[] p\<close> frees the array that \<open>p\<close>
  points to. The ledger tells arrays apart by their number of slots only, and of the
  live arrays of that size it is the youngest that goes. The functions of the adapter
  that allocate or free take the ledger and return it with the structure.
\<close>

type_synonym live_arrays = "nat list"

definition new_array :: "nat \<Rightarrow> live_arrays \<Rightarrow> live_arrays" where
  "new_array slots live = live @ [slots]"

definition delete_array :: "nat \<Rightarrow> live_arrays \<Rightarrow> live_arrays" where
  "delete_array slots live = rev (remove1 slots (rev live))"

text \<open>\<^verbatim>\<open>new T[size]\<close> four times: the slots hold whatever the memory held.\<close>

definition createGlyphArrays ::
  "env \<Rightarrow> HB_ShaperItem \<Rightarrow> nat \<Rightarrow> live_arrays \<Rightarrow> HB_ShaperItem \<times> live_arrays" where
  "createGlyphArrays E shaperItem sz live =
     (shaperItem\<lparr>glyphs := replicate sz (of_nat (uninitialised E)),
                 attributes := replicate sz (uninitialised E),
                 advances := Some (replicate sz (int (uninitialised E))),
                 offsets := replicate sz (int (uninitialised E), int (uninitialised E)),
                 num_glyphs := sz\<rparr>,
      new_array sz (new_array sz (new_array sz (new_array sz live))))"

text \<open>
  \<^verbatim>\<open>delete[]\<close> four times, on the glyphs, the attributes, the advances and the
  offsets: the four arrays leave the free store, and nothing can be read from them any
  more. \<^verbatim>\<open>delete[]\<close> of a null pointer does nothing.
\<close>

definition deleteGlyphArrays ::
  "HB_ShaperItem \<Rightarrow> live_arrays \<Rightarrow> HB_ShaperItem \<times> live_arrays" where
  "deleteGlyphArrays shaperItem live =
     (shaperItem\<lparr>glyphs := [], attributes := [],
                 advances := map_option (\<lambda>a. []) (advances shaperItem), offsets := []\<rparr>,
      delete_array (length (offsets shaperItem))
        ((case advances shaperItem of
            None \<Rightarrow> (\<lambda>l. l)
          | Some a \<Rightarrow> delete_array (length a))
           (delete_array (length (attributes shaperItem))
              (delete_array (length (glyphs shaperItem)) live))))"

text \<open>
  \<^verbatim>\<open>memset\<close> to zero over the first \<open>n\<close> slots of an array; \<open>z\<close> is the all-zero value
  of the element type.
\<close>

definition zero_fill :: "'a \<Rightarrow> nat \<Rightarrow> 'a list \<Rightarrow> 'a list" where
  "zero_fill z n xs = replicate (min n (length xs)) z @ drop n xs"

definition resetGlyphArrays :: "HB_ShaperItem \<Rightarrow> HB_ShaperItem" where
  "resetGlyphArrays shaperItem =
     (let sz = num_glyphs shaperItem in
      shaperItem\<lparr>glyphs := zero_fill 0 sz (glyphs shaperItem),
                 attributes := zero_fill 0 sz (attributes shaperItem),
                 advances := map_option (zero_fill 0 sz) (advances shaperItem),
                 offsets := zero_fill (0, 0) sz (offsets shaperItem)\<rparr>)"

text \<open>
  \<open>setupShaperItem\<close>: the structure is cleared, the glyph-side arrays are created with
  \<open>(contextCount + 2) * 2\<close> slots, the log-cluster array with \<open>contextCount\<close> slots,
  and the run, the string and the font data are entered.
\<close>

definition cleared_HB_ShaperItem :: HB_ShaperItem where
  "cleared_HB_ShaperItem =
     \<lparr>hb_string = [], stringLength = 0, item_pos = 0, item_length = 0, item_bidiLevel = 0,
      item_script = HB_Script_Common, font_userData = None, num_glyphs = 0, glyphs = [],
      attributes = [], advances = None, offsets = [], log_clusters = [],
      kerning_applied = False\<rparr>"

definition setupShaperItem ::
  "env \<Rightarrow> SkPaint \<Rightarrow> UChar list \<Rightarrow> nat \<Rightarrow> nat \<Rightarrow> nat \<Rightarrow> bool \<Rightarrow> live_arrays \<Rightarrow>
   HB_ShaperItem \<times> live_arrays" where
  "setupShaperItem E paint chars start cnt contextCount isRTL live =
     (case createGlyphArrays E (cleared_HB_ShaperItem\<lparr>kerning_applied := False\<rparr>)
             ((contextCount + 2) * 2) live of
        (shaperItem, live') \<Rightarrow>
          (shaperItem
             \<lparr>log_clusters := replicate contextCount (of_nat (uninitialised E)),
              item_pos := start,
              item_length := cnt,
              item_bidiLevel := (if isRTL then 1 else 0),
              item_script := (if isRTL then HB_Script_Arabic else HB_Script_Common),
              hb_string := chars,
              stringLength := contextCount,
              font_userData := Some
                \<lparr>fontData_typeFace = getTypeface paint, fontData_textSize = getTextSize paint,
                 fontData_textSkewX = getTextSkewX paint,
                 fontData_textScaleX = getTextScaleX paint,
                 fontData_flags = getFlags paint, fontData_hinting = getHinting paint\<rparr>\<rparr>,
           live'))"

text \<open>
  The body of the retry loop of \<open>shapeWithHarfbuzz\<close>: free the glyph-side arrays,
  create them with twice the number of glyphs the shaper asked for, clear them.
\<close>

definition resize_glyph_arrays ::
  "env \<Rightarrow> HB_ShaperItem \<Rightarrow> live_arrays \<Rightarrow> HB_ShaperItem \<times> live_arrays" where
  "resize_glyph_arrays E shaperItem live =
     (case deleteGlyphArrays shaperItem live of
        (freed, live') \<Rightarrow>
          (case createGlyphArrays E freed (num_glyphs freed * 2) live' of
             (created, live'') \<Rightarrow> (resetGlyphArrays created, live'')))"

text \<open>
  \<^verbatim>\<open>while (!HB_ShapeItem(shaperItem)) { ... }\<close>. The loop has no bound of its own: a
  shaper that keeps refusing keeps it running, and the model then has no result. The
  shaper writes into the arrays it is given and leaves the free store alone.
\<close>

partial_function (option) shape_loop ::
  "env \<Rightarrow> HB_ShaperItem \<Rightarrow> live_arrays \<Rightarrow> (HB_ShaperItem \<times> live_arrays) option" where
  "shape_loop E shaperItem live =
     (case HB_ShapeItem E shaperItem of
        (ok, shaped) \<Rightarrow>
          if ok then Some (shaped, live)
          else (case resize_glyph_arrays E shaped live of
                  (resized, live') \<Rightarrow> shape_loop E resized live'))"

declare shape_loop.simps [code]

text \<open>
  \<open>shapeWithHarfbuzz\<close> on a free store: the structure and the free store as it leaves
  them.
\<close>

definition shapeWithHarfbuzz_store ::
  "env \<Rightarrow> SkPaint \<Rightarrow> UChar list \<Rightarrow> nat \<Rightarrow> nat \<Rightarrow> nat \<Rightarrow> bool \<Rightarrow> live_arrays \<Rightarrow>
   (HB_ShaperItem \<times> live_arrays) option" where
  "shapeWithHarfbuzz_store E paint chars start cnt contextCount isRTL live =
     (case setupShaperItem E paint chars start cnt contextCount isRTL live of
        (shaperItem, live') \<Rightarrow> shape_loop E (resetGlyphArrays shaperItem) live')"

text \<open>
  The structure alone, for the projection of the run: no field of it depends on the
  free store, which is taken without any glyph-side array here.
\<close>

definition shapeWithHarfbuzz ::
  "env \<Rightarrow> SkPaint \<Rightarrow> UChar list \<Rightarrow> nat \<Rightarrow> nat \<Rightarrow> nat \<Rightarrow> bool \<Rightarrow> HB_ShaperItem option" where
  "shapeWithHarfbuzz E paint chars start cnt contextCount isRTL =
     map_option fst (shapeWithHarfbuzz_store E paint chars start cnt contextCount isRTL [])"



section \<open>Shaping one run\<close>

text \<open>
  The four output parameters of \<open>computeRunValuesWithHarfbuzz\<close> and
  \<open>computeValuesWithHarfbuzz\<close>. The callers in this file pass the addresses of the
  artifact's own vectors, so the two vector pointers that the code tests are never null.
\<close>

record outputs =
  outAdvances :: "jfloat Vector"
  outTotalAdvance :: jfloat
  outGlyphs :: "jchar Vector"
  outLogClusters :: "16 word Vector"

text \<open>
  The advance of position 0: \<^verbatim>\<open>HBFixedToFloat(advances[log_clusters[0]])\<close>, emitted and
  taken as the initial run total. The state of the advances loop is the vector and the
  running total.
\<close>

definition first_advance ::
  "env \<Rightarrow> HB_Fixed list \<Rightarrow> 16 word list \<Rightarrow> jfloat Vector \<Rightarrow> (jfloat Vector \<times> jfloat) option" where
  "first_advance E advs lcs vec =
     (case rd lcs 0 of
        None \<Rightarrow> None
      | Some c \<Rightarrow>
          (case rd advs (unat c) of
             None \<Rightarrow> None
           | Some a \<Rightarrow> Some (add (grow E) (HBFixedToFloat a) vec, HBFixedToFloat a)))"

definition advances_body ::
  "env \<Rightarrow> HB_Fixed list \<Rightarrow> 16 word list \<Rightarrow> nat \<Rightarrow> jfloat Vector \<times> jfloat \<Rightarrow>
   (jfloat Vector \<times> jfloat) option" where
  "advances_body E advs lcs i st =
     (case rd lcs (i - 1) of
        None \<Rightarrow> None
      | Some clusterPrevious \<Rightarrow>
          (case rd lcs i of
             None \<Rightarrow> None
           | Some cluster \<Rightarrow>
               if cluster = clusterPrevious then Some (add (grow E) 0 (fst st), snd st)
               else
                 (case rd advs (unat cluster) of
                    None \<Rightarrow> None
                  | Some a \<Rightarrow>
                      Some (add (grow E) (HBFixedToFloat a) (fst st),
                            snd st + HBFixedToFloat a))))"

text \<open>
  The advance that one iteration of the advances loop emits and adds to the total, as a
  function of the position \<open>i\<close>: 0 when the position shares the cluster of its
  predecessor.
\<close>

definition advance_at :: "HB_Fixed list \<Rightarrow> 16 word list \<Rightarrow> nat \<Rightarrow> jfloat option" where
  "advance_at advs lcs i =
     (case rd lcs (i - 1) of
        None \<Rightarrow> None
      | Some clusterPrevious \<Rightarrow>
          (case rd lcs i of
             None \<Rightarrow> None
           | Some cluster \<Rightarrow>
               if cluster = clusterPrevious then Some 0
               else map_option HBFixedToFloat (rd advs (unat cluster))))"

text \<open>The glyphs, in reverse index order for a right-to-left run, cast to \<^verbatim>\<open>jchar\<close>.\<close>

definition glyphs_body ::
  "env \<Rightarrow> HB_Glyph list \<Rightarrow> nat \<Rightarrow> bool \<Rightarrow> nat \<Rightarrow> jchar Vector \<Rightarrow> jchar Vector option" where
  "glyphs_body E gs countGlyphs isRTL i vec =
     (case rd gs (if \<not> isRTL then i else countGlyphs - 1 - i) of
        None \<Rightarrow> None
      | Some glyph \<Rightarrow> Some (add (grow E) (ucast glyph) vec))"

text \<open>
  The log clusters, each shifted by \<open>countLogClusters\<close>, the size of the output vector
  before the run; the sum is cut to an \<^verbatim>\<open>unsigned short\<close>.
\<close>

definition logClusters_body ::
  "env \<Rightarrow> 16 word list \<Rightarrow> nat \<Rightarrow> nat \<Rightarrow> 16 word Vector \<Rightarrow> 16 word Vector option" where
  "logClusters_body E lcs countLogClusters i vec =
     (case rd lcs i of
        None \<Rightarrow> None
      | Some c \<Rightarrow> Some (add (grow E) (c + of_nat countLogClusters) vec))"

text \<open>
  The projection of a shaped run into the outputs, after the test for an empty result.
\<close>

definition project_run ::
  "env \<Rightarrow> HB_ShaperItem \<Rightarrow> HB_Fixed list \<Rightarrow> nat \<Rightarrow> bool \<Rightarrow> outputs \<Rightarrow> outputs option" where
  "project_run E shaperItem advs cnt isRTL out =
     (case first_advance E advs (log_clusters shaperItem) (outAdvances out) of
        None \<Rightarrow> None
      | Some st0 \<Rightarrow>
          (case for_loop [1..<cnt] (advances_body E advs (log_clusters shaperItem)) st0 of
             None \<Rightarrow> None
           | Some (advs', totalAdvance) \<Rightarrow>
               (case for_loop [0..<num_glyphs shaperItem]
                       (glyphs_body E (glyphs shaperItem) (num_glyphs shaperItem) isRTL)
                       (outGlyphs out) of
                  None \<Rightarrow> None
                | Some glyphs' \<Rightarrow>
                    (case for_loop [0..<num_glyphs shaperItem]
                            (logClusters_body E (log_clusters shaperItem)
                               (length (items (outLogClusters out))))
                            (outLogClusters out) of
                       None \<Rightarrow> None
                     | Some logClusters' \<Rightarrow>
                         Some \<lparr>outAdvances = advs', outTotalAdvance = totalAdvance,
                               outGlyphs = glyphs', outLogClusters = logClusters'\<rparr>))))"

text \<open>
  \<open>computeRunValuesWithHarfbuzz\<close>. When the shaper leaves no advances array or no
  glyph, \<open>cnt\<close> zero advances are inserted at the end and the total is 0. The cleanup
  on both exits (the glyph-side arrays and the face are freed) does not touch the
  outputs.
\<close>

definition computeRunValuesWithHarfbuzz ::
  "env \<Rightarrow> SkPaint \<Rightarrow> UChar list \<Rightarrow> nat \<Rightarrow> nat \<Rightarrow> nat \<Rightarrow> bool \<Rightarrow> outputs \<Rightarrow> outputs option" where
  "computeRunValuesWithHarfbuzz E paint chars start cnt contextCount isRTL out =
     (case shapeWithHarfbuzz E paint chars start cnt contextCount isRTL of
        None \<Rightarrow> None
      | Some shaperItem \<Rightarrow>
          (case advances shaperItem of
             None \<Rightarrow>
               Some (out\<lparr>outAdvances :=
                           insertAt (grow E) 0 (length (items (outAdvances out))) cnt
                             (outAdvances out),
                         outTotalAdvance := 0\<rparr>)
           | Some advs \<Rightarrow>
               if num_glyphs shaperItem = 0
               then Some (out\<lparr>outAdvances :=
                                 insertAt (grow E) 0 (length (items (outAdvances out))) cnt
                                   (outAdvances out),
                               outTotalAdvance := 0\<rparr>)
               else project_run E shaperItem advs cnt isRTL out))"

section \<open>The bidi driver\<close>

text \<open>The \<^verbatim>\<open>switch\<close> on the direction flags; any other value leaves the defaults.\<close>

definition bidiReq_of :: "int \<Rightarrow> 8 word" where
  "bidiReq_of dirs =
     (if dirs = kBidi_LTR then 0
      else if dirs = kBidi_RTL then 1
      else if dirs = kBidi_Default_LTR then UBIDI_DEFAULT_LTR
      else if dirs = kBidi_Default_RTL then UBIDI_DEFAULT_RTL
      else 0)"

text \<open>
  \<^verbatim>\<open>bool isRTL = (bidiReq = 1) || (bidiReq = UBIDI_DEFAULT_RTL);\<close> in the branch taken
  when the resolver cannot be opened. Both operands are assignments: the value of an
  assignment is the value assigned, and it is true when it is not zero.
\<close>

definition assigned :: "8 word \<Rightarrow> 8 word \<Rightarrow> 8 word" where
  "assigned variable val = val"

definition fallback_isRTL :: "8 word \<Rightarrow> bool" where
  "fallback_isRTL bidiReq =
     (assigned bidiReq 1 \<noteq> 0 \<or> assigned bidiReq UBIDI_DEFAULT_RTL \<noteq> 0)"

text \<open>
  One iteration of the loop over the visual runs: the run is shaped into the shared
  vectors with a local total that starts at 0 and is then added to the artifact's total.
\<close>

definition visual_run_body ::
  "env \<Rightarrow> SkPaint \<Rightarrow> UChar list \<Rightarrow> nat \<Rightarrow> UBiDi \<Rightarrow> nat \<Rightarrow> outputs \<Rightarrow> outputs option" where
  "visual_run_body E paint chars contextCount bidi i out =
     (case ubidi_getVisualRun bidi i of
        (runDir, startRun, lengthRun) \<Rightarrow>
          (case computeRunValuesWithHarfbuzz E paint chars startRun lengthRun contextCount
                  (runDir = UBIDI_RTL) (out\<lparr>outTotalAdvance := 0\<rparr>) of
             None \<Rightarrow> None
           | Some out' \<Rightarrow>
               Some (out'\<lparr>outTotalAdvance := outTotalAdvance out + outTotalAdvance out'\<rparr>)))"

definition computeValuesWithHarfbuzz ::
  "env \<Rightarrow> SkPaint \<Rightarrow> UChar list \<Rightarrow> nat \<Rightarrow> int \<Rightarrow> outputs \<Rightarrow> outputs option" where
  "computeValuesWithHarfbuzz E paint chars contextCount dirs out =
     (let bidiReq = bidiReq_of dirs;
          forceLTR = (dirs = kBidi_Force_LTR);
          forceRTL = (dirs = kBidi_Force_RTL)
      in
        if forceLTR \<or> forceRTL
        then computeRunValuesWithHarfbuzz E paint chars 0 contextCount contextCount forceRTL out
        else if ubidi_open E
        then
          (case ubidi_setPara E chars contextCount bidiReq of
             (status, bidi) \<Rightarrow>
               if U_SUCCESS status
               then
                 (let paraDir = ubidi_getParaLevel bidi AND kDirection_Mask in
                  case ubidi_countRuns bidi of
                    (rc, status') \<Rightarrow>
                      if rc = 1 \<or> \<not> U_SUCCESS status'
                      then computeRunValuesWithHarfbuzz E paint chars 0 contextCount
                             contextCount (paraDir = 1) out
                      else for_loop [0..<rc]
                             (visual_run_body E paint chars contextCount bidi) out)
               else Some out)
        else computeRunValuesWithHarfbuzz E paint chars 0 contextCount contextCount
               (fallback_isRTL bidiReq) out)"

text \<open>
  \<open>computeValues\<close>: the capacity hints, then the driver on the artifact's own fields,
  whose addresses are the output parameters.
\<close>

definition outputs_of :: "nat \<Rightarrow> TextLayoutCacheValue \<Rightarrow> outputs" where
  "outputs_of contextCount v =
     \<lparr>outAdvances = setCapacity contextCount (mAdvances v),
      outTotalAdvance = mTotalAdvance v,
      outGlyphs = setCapacity contextCount (mGlyphs v),
      outLogClusters = setCapacity contextCount (mLogClusters v)\<rparr>"

definition computeValues ::
  "env \<Rightarrow> SkPaint \<Rightarrow> UChar list \<Rightarrow> nat \<Rightarrow> int \<Rightarrow> TextLayoutCacheValue \<Rightarrow>
   TextLayoutCacheValue option" where
  "computeValues E paint chars contextCount dirs v =
     (case computeValuesWithHarfbuzz E paint chars contextCount dirs
             (outputs_of contextCount v) of
        None \<Rightarrow> None
      | Some out \<Rightarrow>
          Some (v\<lparr>mAdvances := outAdvances out, mTotalAdvance := outTotalAdvance out,
                  mGlyphs := outGlyphs out, mLogClusters := outLogClusters out\<rparr>))"

text \<open>\<open>TextLayoutCacheValue::getSize\<close>.\<close>

definition value_getSize :: "env \<Rightarrow> TextLayoutCacheValue \<Rightarrow> nat" where
  "value_getSize E v =
     sizeof_TextLayoutCacheValue E + 4 * capacity (mAdvances v) + 2 * capacity (mGlyphs v)
       + 2 * capacity (mLogClusters v)"

text \<open>\<open>getTotalAdvance\<close>: the sum over a slice of the advances, added up again on each call.\<close>

definition getTotalAdvance :: "TextLayoutCacheValue \<Rightarrow> nat \<Rightarrow> nat \<Rightarrow> jfloat option" where
  "getTotalAdvance v start cnt =
     for_loop [start..<start + cnt]
       (\<lambda>i total. case rd (items (mAdvances v)) i of
                     None \<Rightarrow> None
                   | Some a \<Rightarrow> Some (total + a)) 0"


text \<open>
  What the claims about the computed artifact assume of the collaborators. The bidi
  engine resolves the paragraph, and when the driver loops over several visual runs
  their lengths add up to the length of the context.
\<close>

definition runs_cover_context :: "env \<Rightarrow> UChar list \<Rightarrow> nat \<Rightarrow> int \<Rightarrow> bool" where
  "runs_cover_context E chars contextCount dirs =
     (if dirs = kBidi_Force_LTR \<or> dirs = kBidi_Force_RTL then True
      else if ubidi_open E
      then
        (case ubidi_setPara E chars contextCount (bidiReq_of dirs) of
           (status, bidi) \<Rightarrow>
             U_SUCCESS status \<and>
             (case ubidi_countRuns bidi of
                (rc, status') \<Rightarrow>
                  rc = 1 \<or> \<not> U_SUCCESS status' \<or>
                  sum_list (map (\<lambda>i. snd (snd (ubidi_getVisualRun bidi i))) [0..<rc])
                    = contextCount))
      else True)"

text \<open>The shaper gives no glyph, or no advances array, for a run of no code unit.\<close>

definition empty_runs_unshaped :: "env \<Rightarrow> SkPaint \<Rightarrow> UChar list \<Rightarrow> nat \<Rightarrow> bool" where
  "empty_runs_unshaped E paint chars contextCount =
     (\<forall>start isRTL shaperItem.
        shapeWithHarfbuzz E paint chars start 0 contextCount isRTL = Some shaperItem \<longrightarrow>
        advances shaperItem = None \<or> num_glyphs shaperItem = 0)"

text \<open>
  The visual runs over which the driver loops, when it does: the resolved paragraph and
  the number of its runs.
\<close>

definition visual_runs :: "env \<Rightarrow> UChar list \<Rightarrow> nat \<Rightarrow> int \<Rightarrow> (UBiDi \<times> nat) option" where
  "visual_runs E chars contextCount dirs =
     (if dirs = kBidi_Force_LTR \<or> dirs = kBidi_Force_RTL then None
      else if ubidi_open E
      then
        (case ubidi_setPara E chars contextCount (bidiReq_of dirs) of
           (status, bidi) \<Rightarrow>
             if U_SUCCESS status
             then
               (case ubidi_countRuns bidi of
                  (rc, status') \<Rightarrow>
                    if rc = 1 \<or> \<not> U_SUCCESS status' then None else Some (bidi, rc))
             else None)
      else None)"

text \<open>
  The totals that the successive iterations of the loop over the visual runs receive in
  the local \<^verbatim>\<open>runTotalAdvance\<close>.
\<close>

fun visual_run_totals ::
  "env \<Rightarrow> SkPaint \<Rightarrow> UChar list \<Rightarrow> nat \<Rightarrow> UBiDi \<Rightarrow> nat list \<Rightarrow> outputs \<Rightarrow> jfloat list option" where
  "visual_run_totals E paint chars contextCount bidi [] out = Some []"
| "visual_run_totals E paint chars contextCount bidi (i # ixs) out =
     (case ubidi_getVisualRun bidi i of
        (runDir, startRun, lengthRun) \<Rightarrow>
          (case computeRunValuesWithHarfbuzz E paint chars startRun lengthRun contextCount
                  (runDir = UBIDI_RTL) (out\<lparr>outTotalAdvance := 0\<rparr>) of
             None \<Rightarrow> None
           | Some out' \<Rightarrow>
               (case visual_run_totals E paint chars contextCount bidi ixs
                       (out'\<lparr>outTotalAdvance := outTotalAdvance out + outTotalAdvance out'\<rparr>) of
                  None \<Rightarrow> None
                | Some totals \<Rightarrow> Some (outTotalAdvance out' # totals))))"

section \<open>The cache: TextLayoutCache\<close>

text \<open>
  Modelled from the spec: \<^verbatim>\<open>GenerationCache\<close> (utils/GenerationCache.h) is not part of the
  sources. The store is the sequence of its entries from the oldest to the youngest;
  its capacity is unlimited. \<open>get\<close> returns the value of the entry whose key is
  equivalent for \<open>operator_less\<close> to the one asked for, or the null handle, and does not
  change the recency order; \<open>put\<close> adds the entry as the youngest; \<open>removeOldest\<close>
  deletes the oldest entry and \<open>clear\<close> all entries, and the listener registered with
  \<^verbatim>\<open>setOnEntryRemovedListener\<close> is called with the key and the value of every entry
  that is removed. On an empty store \<open>removeOldest\<close> does nothing.

  A handle \<^verbatim>\<open>sp<TextLayoutCacheValue>\<close> is an optional value, \<open>None\<close> for the null handle.
\<close>

type_synonym GenerationCache = "(TextLayoutCacheKey \<times> TextLayoutCacheValue option) list"

definition cache_get :: "GenerationCache \<Rightarrow> TextLayoutCacheKey \<Rightarrow> TextLayoutCacheValue option" where
  "cache_get cache key =
     (case find (\<lambda>entry. \<not> operator_less (fst entry) key \<and> \<not> operator_less key (fst entry))
             cache of
        None \<Rightarrow> None
      | Some entry \<Rightarrow> snd entry)"

definition cache_put ::
  "GenerationCache \<Rightarrow> TextLayoutCacheKey \<Rightarrow> TextLayoutCacheValue option \<Rightarrow> GenerationCache" where
  "cache_put cache key val = cache @ [(key, val)]"

text \<open>
  The state of the cache. \<open>mSize\<close> and \<open>mMaxSize\<close> are \<^verbatim>\<open>uint32_t\<close> in the source; the
  sizes that are added up are those of objects that are in memory together, so the sums
  stay below \<open>2^32\<close> and are modelled without wrap-around. The debug statistics (hit
  count, nanoseconds saved, elapsed time of a computation) are driven by the clock, are
  written only when debugging is enabled and are read by nothing else; they are left out.
\<close>

record TextLayoutCache =
  mCache :: GenerationCache
  mSize :: nat
  mMaxSize :: nat

text \<open>Modelled from the spec: the default budget is 0.25 MiB.\<close>

definition new_TextLayoutCache :: TextLayoutCache where
  "new_TextLayoutCache = \<lparr>mCache = [], mSize = 0, mMaxSize = 262144\<rparr>"

text \<open>The accounted size of an entry: \<^verbatim>\<open>text.getSize() + desc->getSize()\<close>.\<close>

definition entry_size :: "env \<Rightarrow> TextLayoutCacheKey \<times> TextLayoutCacheValue option \<Rightarrow> nat" where
  "entry_size E entry =
     (case snd entry of
        None \<Rightarrow> 0
      | Some desc \<Rightarrow> key_getSize (sizeof_TextLayoutCacheKey E) (fst entry) + value_getSize E desc)"

text \<open>
  The removal callback \<^verbatim>\<open>operator()\<close>. The subtraction is on \<^verbatim>\<open>uint32_t\<close>; whenever the
  callback runs on an entry of the store the entry's size is at most \<open>mSize\<close> (lemma
  \<open>entry_size_le_mSize\<close>), so it does not wrap.
\<close>

definition on_entry_removed ::
  "env \<Rightarrow> TextLayoutCacheKey \<Rightarrow> TextLayoutCacheValue option \<Rightarrow> TextLayoutCache \<Rightarrow> TextLayoutCache" where
  "on_entry_removed E key desc S =
     (case desc of
        None \<Rightarrow> S
      | Some d \<Rightarrow>
          S\<lparr>mSize := mSize S - (key_getSize (sizeof_TextLayoutCacheKey E) key + value_getSize E d)\<rparr>)"

definition removeOldest :: "env \<Rightarrow> TextLayoutCache \<Rightarrow> TextLayoutCache" where
  "removeOldest E S =
     (case mCache S of
        [] \<Rightarrow> S
      | entry # rest \<Rightarrow> on_entry_removed E (fst entry) (snd entry) (S\<lparr>mCache := rest\<rparr>))"

text \<open>\<open>TextLayoutCache::clear\<close>: the store is cleared, the callback runs for every entry.\<close>

definition "clear" :: "env \<Rightarrow> TextLayoutCache \<Rightarrow> TextLayoutCache" where
  "clear E S =
     (fold (\<lambda>entry. on_entry_removed E (fst entry) (snd entry)) (mCache S) S)\<lparr>mCache := []\<rparr>"

text \<open>
  \<^verbatim>\<open>while (mSize + size > mMaxSize) mCache.removeOldest();\<close> with \<open>needed = 0\<close> for
  \<open>removeOldests\<close> and \<open>needed = size\<close> in \<open>getValue\<close>. When the store is empty and the
  test still holds, nothing changes any more and the loop runs forever: no result.
\<close>

function (sequential) evict_until_fits :: "env \<Rightarrow> nat \<Rightarrow> TextLayoutCache \<Rightarrow> TextLayoutCache option" where
  "evict_until_fits E needed S =
     (if mSize S + needed > mMaxSize S
      then (if mCache S = [] then None else evict_until_fits E needed (removeOldest E S))
      else Some S)"
  by pat_completeness auto
termination
  by (relation "measure (\<lambda>(E, needed, S). length (mCache S))")
     (auto simp: removeOldest_def on_entry_removed_def split: list.splits option.splits)

definition removeOldests :: "env \<Rightarrow> TextLayoutCache \<Rightarrow> TextLayoutCache option" where
  "removeOldests E S = evict_until_fits E 0 S"

definition setMaxSize :: "env \<Rightarrow> nat \<Rightarrow> TextLayoutCache \<Rightarrow> TextLayoutCache option" where
  "setMaxSize E maxSize S = removeOldests E (S\<lparr>mMaxSize := maxSize\<rparr>)"

definition getSize :: "TextLayoutCache \<Rightarrow> nat" where
  "getSize S = mSize S"

definition getMaxSize :: "TextLayoutCache \<Rightarrow> nat" where
  "getMaxSize S = mMaxSize S"

text \<open>
  \<open>TextLayoutCache::getValue\<close>, under the lock for its whole body. The result is the new
  state of the cache and the handle returned; there is no result when the computation
  of the artifact has none.
\<close>

definition getValue ::
  "env \<Rightarrow> TextLayoutCache \<Rightarrow> SkPaint \<Rightarrow> UChar list \<Rightarrow> nat \<Rightarrow> int \<Rightarrow>
   (TextLayoutCache \<times> TextLayoutCacheValue option) option" where
  "getValue E S paint chars cnt dirs =
     (let key = new_TextLayoutCacheKey paint chars cnt dirs in
      case cache_get (mCache S) key of
        Some hit \<Rightarrow> Some (S, Some hit)
      | None \<Rightarrow>
          (case computeValues E paint chars cnt dirs new_TextLayoutCacheValue of
             None \<Rightarrow> None
           | Some val \<Rightarrow>
               (let sz = key_getSize (sizeof_TextLayoutCacheKey E) key + value_getSize E val in
                if sz \<le> mMaxSize S
                then
                  (case evict_until_fits E sz S of
                     None \<Rightarrow> None
                   | Some S1 \<Rightarrow>
                       (let S2 = S1\<lparr>mSize := mSize S1 + sz\<rparr> in
                        Some (S2\<lparr>mCache := cache_put (mCache S2) (internalTextCopy key)
                                               (Some val)\<rparr>,
                              Some val)))
                else Some (S, None))))"

text \<open>
  The accounting of the byte counter: \<open>mSize\<close> is the sum of the accounted sizes of
  the entries in the store, none of which holds a null handle. The budget invariant adds
  that \<open>mSize\<close> is within \<open>mMaxSize\<close>.
\<close>

definition accounted :: "env \<Rightarrow> TextLayoutCache \<Rightarrow> bool" where
  "accounted E S =
     (mSize S = sum_list (map (entry_size E) (mCache S)) \<and>
      list_all (\<lambda>entry. snd entry \<noteq> None) (mCache S))"

definition budget_invariant :: "env \<Rightarrow> TextLayoutCache \<Rightarrow> bool" where
  "budget_invariant E S = (accounted E S \<and> mSize S \<le> mMaxSize S)"

section \<open>Concrete inputs\<close>

text \<open>An artifact of three glyphs, one per code unit.\<close>

definition value_three :: TextLayoutCacheValue where
  "value_three = new_TextLayoutCacheValue
     \<lparr>mGlyphs := \<lparr>items = [7, 8, 9], capacity = 3\<rparr>,
      mLogClusters := \<lparr>items = [0, 1, 2], capacity = 3\<rparr>\<rparr>"

text \<open>An artifact whose two glyphs have log clusters 5 and 6.\<close>

definition value_late :: TextLayoutCacheValue where
  "value_late = new_TextLayoutCacheValue
     \<lparr>mGlyphs := \<lparr>items = [7, 8], capacity = 2\<rparr>,
      mLogClusters := \<lparr>items = [5, 6], capacity = 2\<rparr>\<rparr>"

text \<open>A paint, and two keys of one code unit each that differ in text and typeface.\<close>

definition paint_plain :: SkPaint where
  "paint_plain = \<lparr>getTypeface = 1, getTextSize = 12, getTextSkewX = 0, getTextScaleX = 1,
                   getFlags = 0, getHinting = 0\<rparr>"



text \<open>
  A shaper that gives one glyph per code unit of the run: the glyph id is the code
  unit, every advance is 6 (384 in 26.6 fixed point) and the log clusters count from 0.
  It refuses arrays with fewer slots than the run has code units.
\<close>

definition overwrite :: "'a list \<Rightarrow> 'a list \<Rightarrow> 'a list" where
  "overwrite xs buffer = xs @ drop (length xs) buffer"

definition fill_one_to_one :: "HB_ShaperItem \<Rightarrow> HB_ShaperItem" where
  "fill_one_to_one shaperItem =
     (let n = item_length shaperItem in
      shaperItem
        \<lparr>num_glyphs := n,
         glyphs := overwrite (map ucast (take n (drop (item_pos shaperItem) (hb_string shaperItem))))
                     (glyphs shaperItem),
         advances := map_option (overwrite (replicate n 384)) (advances shaperItem),
         log_clusters := overwrite (map of_nat [0..<n]) (log_clusters shaperItem)\<rparr>)"

definition shaper_one_to_one :: "HB_ShaperItem \<Rightarrow> bool \<times> HB_ShaperItem" where
  "shaper_one_to_one shaperItem =
     (if num_glyphs shaperItem < item_length shaperItem
      then (False, shaperItem\<lparr>num_glyphs := item_length shaperItem\<rparr>)
      else (True, fill_one_to_one shaperItem))"



text \<open>
  A left-to-right paragraph of one run, and a right-to-left paragraph of four code
  units whose two visual runs are the code units 2 and 3 (left to right) and then the
  code units 0 and 1 (right to left).
\<close>

definition bidi_one_run :: UBiDi where
  "bidi_one_run = \<lparr>ubidi_getParaLevel = 0, ubidi_countRuns = (1, 0),
                    ubidi_getVisualRun = (\<lambda>i. (0, 0, 0))\<rparr>"

definition bidi_two_runs :: UBiDi where
  "bidi_two_runs = \<lparr>ubidi_getParaLevel = 1, ubidi_countRuns = (2, 0),
                     ubidi_getVisualRun = (\<lambda>i. if i = 0 then (0, 2, 2) else (1, 0, 2))\<rparr>"

definition env_plain :: env where
  "env_plain = \<lparr>HB_ShapeItem = shaper_one_to_one, ubidi_open = True,
                 ubidi_setPara = (\<lambda>chars n req. (0, bidi_one_run)),
                 grow = (\<lambda>cap needed. max 4 ((needed * 3 + 1) div 2)),
                 sizeof_TextLayoutCacheKey = 40, sizeof_TextLayoutCacheValue = 48,
                 uninitialised = 170\<rparr>"


definition text_Hi :: "UChar list" where
  "text_Hi = [72, 105]"

definition text_four :: "UChar list" where
  "text_four = [1575, 1604, 97, 98]"

definition empty_outputs :: outputs where
  "empty_outputs = \<lparr>outAdvances = empty_Vector, outTotalAdvance = 0, outGlyphs = empty_Vector,
                     outLogClusters = empty_Vector\<rparr>"






text \<open>
  The collaborators for a paragraph of two visual runs, for a resolver that cannot be
  opened, and for a paragraph that the engine fails to set (status 7).
\<close>

definition env_two_runs :: env where
  "env_two_runs = env_plain\<lparr>ubidi_setPara := (\<lambda>chars n req. (0, bidi_two_runs))\<rparr>"

definition env_no_bidi :: env where
  "env_no_bidi = env_plain\<lparr>ubidi_open := False\<rparr>"

definition env_setPara_fails :: env where
  "env_setPara_fails = env_plain\<lparr>ubidi_setPara := (\<lambda>chars n req. (7, bidi_one_run))\<rparr>"

definition value_two_runs :: TextLayoutCacheValue where
  "value_two_runs =
     the (computeValues env_two_runs paint_plain text_four 4 kBidi_RTL new_TextLayoutCacheValue)"

text \<open>
  Empty caches with budgets of 32 and of 300 bytes, and the second one after
  \<open>text_Hi\<close> and then \<open>text_four\<close> have been asked for.
\<close>

definition cache_32 :: TextLayoutCache where
  "cache_32 = \<lparr>mCache = [], mSize = 0, mMaxSize = 32\<rparr>"

definition cache_300 :: TextLayoutCache where
  "cache_300 = \<lparr>mCache = [], mSize = 0, mMaxSize = 300\<rparr>"

definition cache_Hi :: TextLayoutCache where
  "cache_Hi = fst (the (getValue env_plain cache_300 paint_plain text_Hi 2 kBidi_LTR))"

definition cache_Hi_four :: TextLayoutCache where
  "cache_Hi_four = fst (the (getValue env_plain cache_Hi paint_plain text_four 4 kBidi_LTR))"

section \<open>Properties\<close>

subsection \<open>Loops\<close>

lemma for_loop_append:
  "for_loop (xs @ ys) body s =
     (case for_loop xs body s of None \<Rightarrow> None | Some s' \<Rightarrow> for_loop ys body s')"
  by (induction xs arbitrary: s) (auto split: option.splits)

subsection \<open>The glyph range of a code-unit range\<close>

lemma le_set_def': "le_set lcs n bound = {i. i < n \<and> unat (lcs ! i) \<le> bound}"
  by (auto simp: le_set_def)

lemma le_set_finite: "finite (le_set lcs n b)"
  by (simp add: le_set_def')

lemma le_set_Suc:
  "le_set lcs (Suc n) b = (if unat (lcs ! n) \<le> b then insert n (le_set lcs n b) else le_set lcs n b)"
  by (auto simp: le_set_def' less_Suc_eq)

lemma le_set_less: "i \<in> le_set lcs n b \<Longrightarrow> i < n"
  by (simp add: le_set_def')

lemma Max_insert_top:
  "finite A \<Longrightarrow> \<forall>i\<in>A. i < (n::nat) \<Longrightarrow> Max (insert n A) = n"
  by (metis Max_insert Max_singleton Max_less_iff max.absorb1 less_imp_le_nat insert_absorb2 max.strict_order_iff)

lemma Max_le_set_Suc:
  "unat (lcs ! n) \<le> b \<Longrightarrow> Max (le_set lcs (Suc n) b) = n"
  using Max_insert_top [OF le_set_finite, of lcs n b n]
  by (simp add: le_set_Suc le_set_less)

lemma le_set_Suc_nonempty: "unat (lcs ! n) \<le> b \<Longrightarrow> le_set lcs (Suc n) b \<noteq> {}"
  by (auto simp: le_set_def')

lemma le_set_Suc_skip: "\<not> unat (lcs ! n) \<le> b \<Longrightarrow> le_set lcs (Suc n) b = le_set lcs n b"
  by (simp add: le_set_Suc)

lemma glyphs_index_body_Some:
  "glyphs_index_body lcs start cnt n st = Some st' \<Longrightarrow>
     n < length lcs \<and>
     st' = (if unat (lcs ! n) \<le> start then (n, n)
            else if unat (lcs ! n) \<le> start + cnt then (fst st, n) else st)"
  by (auto simp: glyphs_index_body_def rd_def split: if_splits)

lemma glyphs_index_loop:
  "for_loop [0..<n] (glyphs_index_body lcs start cnt) (0, 0) = Some (s, e) \<Longrightarrow>
     n \<le> length lcs \<and>
     s = (if le_set lcs n start = {} then 0 else Max (le_set lcs n start)) \<and>
     e = (if le_set lcs n (start + cnt) = {} then 0 else Max (le_set lcs n (start + cnt)))"
proof (induction n arbitrary: s e)
  case 0
  then show ?case by (simp add: le_set_def')
next
  case (Suc n)
  from Suc.prems obtain s0 e0 where
    prev: "for_loop [0..<n] (glyphs_index_body lcs start cnt) (0, 0) = Some (s0, e0)" and
    step: "glyphs_index_body lcs start cnt n (s0, e0) = Some (s, e)"
    by (auto simp: for_loop_append split: option.splits)
  note IH = Suc.IH [OF prev]
  note st = glyphs_index_body_Some [OF step]
  from st have n: "Suc n \<le> length lcs" by simp
  show ?case
  proof (cases "unat (lcs ! n) \<le> start")
    case True
    then have le2: "unat (lcs ! n) \<le> start + cnt" by simp
    from st True have "s = n" "e = n" by simp_all
    with n True le2 show ?thesis
      by (simp add: Max_le_set_Suc le_set_Suc_nonempty)
  next
    case False
    show ?thesis
    proof (cases "unat (lcs ! n) \<le> start + cnt")
      case True
      from st False True have "s = s0" "e = n" by simp_all
      with n IH False True show ?thesis
        by (simp add: Max_le_set_Suc le_set_Suc_nonempty le_set_Suc_skip)
    next
      case F2: False
      from st False F2 have "s = s0" "e = e0" by simp_all
      with n IH False F2 show ?thesis
        by (simp add: le_set_Suc_skip)
    qed
  qed
qed

lemma glyphs_index_body_defined:
  "n < length lcs \<Longrightarrow> \<exists>st'. glyphs_index_body lcs start cnt n st = Some st'"
  by (simp add: glyphs_index_body_def rd_def)

lemma glyphs_index_loop_defined:
  "n \<le> length lcs \<Longrightarrow> \<exists>st. for_loop [0..<n] (glyphs_index_body lcs start cnt) (0, 0) = Some st"
proof (induction n)
  case 0
  then show ?case by simp
next
  case (Suc n)
  then obtain st where st: "for_loop [0..<n] (glyphs_index_body lcs start cnt) (0, 0) = Some st"
    by auto
  from Suc.prems have "n < length lcs" by simp
  from glyphs_index_body_defined [OF this, of start cnt st] obtain st' where
    "glyphs_index_body lcs start cnt n st = Some st'" by blast
  with st show ?case
    by (simp add: for_loop_append)
qed

lemma le_set_mono_Max:
  assumes "le_set lcs n a \<noteq> {}" and "a \<le> b"
  shows "Max (le_set lcs n a) \<le> Max (le_set lcs n b)"
proof -
  have "le_set lcs n a \<subseteq> le_set lcs n b" using assms(2) by (auto simp: le_set_def')
  then show ?thesis using assms(1) le_set_finite by (rule Max_mono)
qed

lemma glyphs_index_loop_le:
  assumes "for_loop [0..<n] (glyphs_index_body lcs start cnt) (0, 0) = Some (s, e)"
  shows "s \<le> e"
proof (cases "le_set lcs n start = {}")
  case True
  with glyphs_index_loop [OF assms] show ?thesis by simp
next
  case False
  have sub: "le_set lcs n start \<subseteq> le_set lcs n (start + cnt)"
    by (auto simp: le_set_def')
  with False have "le_set lcs n (start + cnt) \<noteq> {}" by auto
  with False glyphs_index_loop [OF assms] le_set_mono_Max [OF False, of "start + cnt"]
  show ?thesis by simp
qed

text \<open>
  Claim C8. For an artifact whose glyph list is not longer than its log-cluster list
  (every artifact built by \<open>computeValues\<close> has them of equal length) and every
  code-unit range \<open>(start, cnt)\<close>, \<open>getGlyphsIndexAndCount\<close> returns: \<open>(0, 0)\<close> when
  \<open>cnt = 0\<close>; otherwise the start index is the largest glyph index whose log cluster
  is at most \<open>start\<close>, and the glyph count is \<open>end - start + 1\<close> where \<open>end\<close> is the
  largest glyph index whose log cluster is at most \<open>start + cnt\<close> (each whenever
  such a glyph exists).
\<close>

theorem getGlyphsIndexAndCount_range:
  assumes "length (items (mGlyphs v)) \<le> length (items (mLogClusters v))"
  shows "\<exists>startIndex glyphsCount.
     getGlyphsIndexAndCount v start cnt = Some (startIndex, glyphsCount) \<and>
     (cnt = 0 \<longrightarrow> startIndex = 0 \<and> glyphsCount = 0) \<and>
     (0 < cnt \<longrightarrow>
        (le_set (items (mLogClusters v)) (length (items (mGlyphs v))) start \<noteq> {} \<longrightarrow>
           startIndex = Max (le_set (items (mLogClusters v)) (length (items (mGlyphs v))) start)) \<and>
        (le_set (items (mLogClusters v)) (length (items (mGlyphs v))) (start + cnt) \<noteq> {} \<longrightarrow>
           startIndex \<le> Max (le_set (items (mLogClusters v)) (length (items (mGlyphs v))) (start + cnt)) \<and>
           glyphsCount =
             Max (le_set (items (mLogClusters v)) (length (items (mGlyphs v))) (start + cnt))
               - startIndex + 1))"
proof (cases "cnt = 0")
  case True
  then show ?thesis by (simp add: getGlyphsIndexAndCount_def)
next
  case False
  from glyphs_index_loop_defined [OF assms, of start cnt] obtain s e where
    loop: "for_loop [0..<length (items (mGlyphs v))]
             (glyphs_index_body (items (mLogClusters v)) start cnt) (0, 0) = Some (s, e)"
    by force
  from False loop have res: "getGlyphsIndexAndCount v start cnt = Some (s, e - s + 1)"
    by (simp add: getGlyphsIndexAndCount_def)
  define S where "S = le_set (items (mLogClusters v)) (length (items (mGlyphs v))) start"
  define T where "T = le_set (items (mLogClusters v)) (length (items (mGlyphs v))) (start + cnt)"
  from glyphs_index_loop [OF loop]
  have s: "s = (if S = {} then 0 else Max S)" and e: "e = (if T = {} then 0 else Max T)"
    by (simp_all add: S_def T_def)
  have le: "s \<le> e" by (rule glyphs_index_loop_le [OF loop])
  have "(S \<noteq> {} \<longrightarrow> s = Max S) \<and> (T \<noteq> {} \<longrightarrow> s \<le> Max T \<and> e - s + 1 = Max T - s + 1)"
    using s e le by (cases "S = {}"; cases "T = {}") simp_all
  with res False show ?thesis
    unfolding S_def T_def by simp
qed

theorem getGlyphsIndexAndCount_range_witness:
  "length (items (mGlyphs value_three)) \<le> length (items (mLogClusters value_three)) \<and>
   getGlyphsIndexAndCount value_three 1 1 = Some (1, 2) \<and>
   Max (le_set (items (mLogClusters value_three)) (length (items (mGlyphs value_three))) 1) = 1 \<and>
   Max (le_set (items (mLogClusters value_three)) (length (items (mGlyphs value_three))) (1 + 1)) = 2"
proof -
  have h: "length (items (mGlyphs value_three)) \<le> length (items (mLogClusters value_three))"
    by (simp add: value_three_def)
  have s: "le_set (items (mLogClusters value_three)) (length (items (mGlyphs value_three))) 1 = {0, 1}"
    by (auto simp: value_three_def le_set_def' less_Suc_eq numeral_3_eq_3)
  have t: "le_set (items (mLogClusters value_three)) (length (items (mGlyphs value_three))) (1 + 1) = {0, 1, 2}"
    by (auto simp: value_three_def le_set_def' less_Suc_eq numeral_3_eq_3)
  from getGlyphsIndexAndCount_range [OF h, of 1 1] s t h show ?thesis
    by auto
qed

text \<open>
  Claim C10. For every request with \<open>cnt > 0\<close> the reported glyph count is at least
  1: it is \<open>end - start + 1\<close> with both indices starting at 0. When no glyph has a
  log cluster at most \<open>start + cnt\<close> the reported range is \<open>(0, 1)\<close>, and so it is
  for an artifact with an empty glyph list. The function has a result whenever the
  glyph list is not longer than the log-cluster list.
\<close>

theorem getGlyphsIndexAndCount_at_least_one:
  assumes "0 < cnt"
  shows "(items (mGlyphs v) = [] \<longrightarrow> getGlyphsIndexAndCount v start cnt = Some (0, 1)) \<and>
     (length (items (mGlyphs v)) \<le> length (items (mLogClusters v)) \<longrightarrow>
        (\<exists>startIndex glyphsCount.
           getGlyphsIndexAndCount v start cnt = Some (startIndex, glyphsCount))) \<and>
     (\<forall>startIndex glyphsCount.
        getGlyphsIndexAndCount v start cnt = Some (startIndex, glyphsCount) \<longrightarrow>
          1 \<le> glyphsCount \<and>
          (le_set (items (mLogClusters v)) (length (items (mGlyphs v))) (start + cnt) = {} \<longrightarrow>
             startIndex = 0 \<and> glyphsCount = 1))"
proof -
  have first: "getGlyphsIndexAndCount v start cnt = Some (0, 1)" if "items (mGlyphs v) = []"
    using that assms by (simp add: getGlyphsIndexAndCount_def)
  have second: "1 \<le> glyphsCount \<and>
          (le_set (items (mLogClusters v)) (length (items (mGlyphs v))) (start + cnt) = {} \<longrightarrow>
             startIndex = 0 \<and> glyphsCount = 1)"
    if r: "getGlyphsIndexAndCount v start cnt = Some (startIndex, glyphsCount)"
    for startIndex glyphsCount
  proof -
    from r assms obtain e where
      loop: "for_loop [0..<length (items (mGlyphs v))]
             (glyphs_index_body (items (mLogClusters v)) start cnt) (0, 0) = Some (startIndex, e)"
      and gc: "glyphsCount = e - startIndex + 1"
      by (auto simp: getGlyphsIndexAndCount_def split: option.splits)
    have "le_set (items (mLogClusters v)) (length (items (mGlyphs v))) start
          \<subseteq> le_set (items (mLogClusters v)) (length (items (mGlyphs v))) (start + cnt)"
      by (auto simp: le_set_def')
    with glyphs_index_loop [OF loop] gc show ?thesis
      by auto
  qed
  have defined: "\<exists>startIndex glyphsCount.
      getGlyphsIndexAndCount v start cnt = Some (startIndex, glyphsCount)"
    if "length (items (mGlyphs v)) \<le> length (items (mLogClusters v))"
  proof -
    from glyphs_index_loop_defined [OF that, of start cnt] obtain s e where
      "for_loop [0..<length (items (mGlyphs v))]
         (glyphs_index_body (items (mLogClusters v)) start cnt) (0, 0) = Some (s, e)"
      by force
    with assms show ?thesis by (simp add: getGlyphsIndexAndCount_def)
  qed
  from first second defined show ?thesis by blast
qed

theorem getGlyphsIndexAndCount_at_least_one_witness:
  "(0::nat) < 2 \<and> getGlyphsIndexAndCount new_TextLayoutCacheValue 0 2 = Some (0, 1) \<and>
   getGlyphsIndexAndCount value_late 0 2 = Some (0, 1) \<and>
   le_set (items (mLogClusters value_late)) (length (items (mGlyphs value_late))) (0 + 2) = {}"
proof -
  have h: "(0::nat) < 2" by simp
  have e: "items (mGlyphs new_TextLayoutCacheValue) = []"
    by (simp add: new_TextLayoutCacheValue_def empty_Vector_def)
  have r: "getGlyphsIndexAndCount value_late 0 2 = Some (0, 1)"
    by (simp add: getGlyphsIndexAndCount_def value_late_def glyphs_index_body_def rd_def
        new_TextLayoutCacheValue_def upt_rec)
  have t: "le_set (items (mLogClusters value_late)) (length (items (mGlyphs value_late))) (0 + 2) = {}"
    by (simp add: value_late_def le_set_def upt_rec)
  from getGlyphsIndexAndCount_at_least_one [OF h, of new_TextLayoutCacheValue 0] e r t
  show ?thesis by simp
qed
subsection \<open>The order of keys\<close>













subsection \<open>The shaper adapter\<close>



lemma new_array_four:
  "new_array n (new_array n (new_array n (new_array n live))) = live @ replicate 4 n"
  by (simp add: new_array_def numeral_eq_Suc)

lemma createGlyphArrays_store:
  "snd (createGlyphArrays E shaperItem n live) = live @ replicate 4 n"
  by (simp add: createGlyphArrays_def new_array_four)






lemma shape_loop_done:
  "HB_ShapeItem E shaperItem = (True, shaped) \<Longrightarrow>
     shape_loop E shaperItem live = Some (shaped, live)"
  by (subst shape_loop.simps) simp







lemma shapeWithHarfbuzz_store_eq:
  "shapeWithHarfbuzz_store E paint chars start cnt contextCount isRTL live =
     shape_loop E
       (resetGlyphArrays (fst (setupShaperItem E paint chars start cnt contextCount isRTL live)))
       (snd (setupShaperItem E paint chars start cnt contextCount isRTL live))"
  by (simp add: shapeWithHarfbuzz_store_def split: prod.splits)




subsection \<open>The projection of a shaped run\<close>

lemma items_insertAt_end:
  "items (insertAt g x (length (items v)) n v) = items v @ replicate n x"
  by (simp add: insertAt_def)

lemma items_add: "items (add g x v) = items v @ [x]"
  by (simp add: add_def items_insertAt_end)

lemma for_loop_add:
  assumes body: "\<And>i vec. body i vec = map_option (\<lambda>x. add g x vec) (f i)"
  shows "for_loop ixs body vec = Some vec' \<Longrightarrow>
     items vec' = items vec @ map (\<lambda>i. the (f i)) ixs \<and> (\<forall>i\<in>set ixs. f i \<noteq> None)"
proof (induction ixs arbitrary: vec)
  case Nil
  then show ?case by simp
next
  case (Cons i ixs)
  from Cons.prems obtain x where x: "f i = Some x"
    and rest: "for_loop ixs body (add g x vec) = Some vec'"
    using body [of i vec] by (cases "f i") auto
  from Cons.IH [OF rest] x show ?case
    by (simp add: items_add)
qed

lemma for_loop_add_total:
  assumes body: "\<And>i st. body i st = map_option (\<lambda>x. (add g x (fst st), snd st + x)) (f i)"
  shows "for_loop ixs body st = Some st' \<Longrightarrow>
     items (fst st') = items (fst st) @ map (\<lambda>i. the (f i)) ixs \<and>
     snd st' = snd st + sum_list (map (\<lambda>i. the (f i)) ixs) \<and>
     (\<forall>i\<in>set ixs. f i \<noteq> None)"
proof (induction ixs arbitrary: st)
  case Nil
  then show ?case by simp
next
  case (Cons i ixs)
  from Cons.prems obtain x where x: "f i = Some x"
    and rest: "for_loop ixs body (add g x (fst st), snd st + x) = Some st'"
    using body [of i st] by (cases "f i") auto
  from Cons.IH [OF rest] x show ?case
    by (simp add: items_add add.assoc)
qed

lemma advances_body_eq:
  "advances_body E advs lcs i st =
     map_option (\<lambda>x. (add (grow E) x (fst st), snd st + x)) (advance_at advs lcs i)"
  by (simp add: advances_body_def advance_at_def split: option.splits)

lemma advance_at_Some:
  assumes "advance_at advs lcs i \<noteq> None" and "1 \<le> i"
  shows "i < length lcs \<and> (lcs ! i \<noteq> lcs ! (i - 1) \<longrightarrow> unat (lcs ! i) < length advs) \<and>
     the (advance_at advs lcs i) =
       (if lcs ! i = lcs ! (i - 1) then 0 else HBFixedToFloat (advs ! unat (lcs ! i)))"
  using assms
  by (auto simp: advance_at_def rd_def split: option.splits if_splits)

lemma advances_loop:
  assumes "for_loop [1..<cnt] (advances_body E advs lcs) st = Some st'"
  shows "items (fst st') = items (fst st) @
           map (\<lambda>i. if lcs ! i = lcs ! (i - 1) then 0 else HBFixedToFloat (advs ! unat (lcs ! i)))
             [1..<cnt] \<and>
         snd st' = snd st +
           (\<Sum>i\<leftarrow>[1..<cnt]. if lcs ! i = lcs ! (i - 1) then 0
                            else HBFixedToFloat (advs ! unat (lcs ! i))) \<and>
         (\<forall>i. 1 \<le> i \<and> i < cnt \<longrightarrow>
            i < length lcs \<and> (lcs ! i \<noteq> lcs ! (i - 1) \<longrightarrow> unat (lcs ! i) < length advs))"
proof -
  note L = for_loop_add_total [where f = "advance_at advs lcs", OF advances_body_eq assms]
  have def: "advance_at advs lcs i \<noteq> None" if "1 \<le> i" "i < cnt" for i
    using L that by simp
  have eq: "map (\<lambda>i. the (advance_at advs lcs i)) [1..<cnt] =
      map (\<lambda>i. if lcs ! i = lcs ! (i - 1) then 0 else HBFixedToFloat (advs ! unat (lcs ! i)))
        [1..<cnt]"
    by (rule map_cong) (use def advance_at_Some in auto)
  from L eq def advance_at_Some show ?thesis
    by (metis (no_types, lifting))
qed

lemma glyphs_body_eq:
  "glyphs_body E gs n isRTL i vec =
     map_option (\<lambda>x. add (grow E) x vec)
       (map_option ucast (rd gs (if \<not> isRTL then i else n - 1 - i)))"
  by (simp add: glyphs_body_def split: option.splits)

lemma glyphs_loop:
  assumes "for_loop [0..<n] (glyphs_body E gs n isRTL) vec = Some vec'"
  shows "items vec' = items vec @
           map (\<lambda>i. ucast (gs ! (if \<not> isRTL then i else n - 1 - i))) [0..<n] \<and>
         n \<le> length gs"
proof -
  note L = for_loop_add [where f = "\<lambda>i. map_option ucast (rd gs (if \<not> isRTL then i else n - 1 - i))",
      OF glyphs_body_eq assms]
  have def: "(if \<not> isRTL then i else n - 1 - i) < length gs" if "i < n" for i
    using L that by (auto simp: rd_def split: if_splits)
  have eq: "map (\<lambda>i. the (map_option ucast (rd gs (if \<not> isRTL then i else n - 1 - i)))) [0..<n] =
      map (\<lambda>i. (ucast (gs ! (if \<not> isRTL then i else n - 1 - i)) :: jchar)) [0..<n]"
    by (rule map_cong) (use def in \<open>auto simp: rd_def\<close>)
  have "n \<le> length gs"
  proof (cases n)
    case 0
    then show ?thesis by simp
  next
    case (Suc m)
    show ?thesis
    proof (cases isRTL)
      case True
      with def [of 0] Suc show ?thesis by simp
    next
      case False
      with def [of m] Suc show ?thesis by simp
    qed
  qed
  with L eq show ?thesis by simp
qed

lemma logClusters_body_eq:
  "logClusters_body E lcs k i vec =
     map_option (\<lambda>x. add (grow E) x vec) (map_option (\<lambda>c. c + of_nat k) (rd lcs i))"
  by (simp add: logClusters_body_def split: option.splits)

lemma logClusters_loop:
  assumes "for_loop [0..<n] (logClusters_body E lcs k) vec = Some vec'"
  shows "items vec' = items vec @ map (\<lambda>i. lcs ! i + of_nat k) [0..<n] \<and> n \<le> length lcs"
proof -
  note L = for_loop_add [where f = "\<lambda>i. map_option (\<lambda>c. c + of_nat k) (rd lcs i)",
      OF logClusters_body_eq assms]
  have def: "i < length lcs" if "i < n" for i
    using L that by (auto simp: rd_def split: if_splits)
  have eq: "map (\<lambda>i. the (map_option (\<lambda>c. c + of_nat k) (rd lcs i))) [0..<n] =
      map (\<lambda>i. lcs ! i + of_nat k) [0..<n]"
    by (rule map_cong) (use def in \<open>auto simp: rd_def\<close>)
  have "n \<le> length lcs"
    using def [of "n - 1"] by (cases n) simp_all
  with L eq show ?thesis by simp
qed

lemma first_advance_Some:
  assumes "first_advance E advs lcs vec = Some st"
  shows "0 < length lcs \<and> unat (lcs ! 0) < length advs \<and>
     items (fst st) = items vec @ [HBFixedToFloat (advs ! unat (lcs ! 0))] \<and>
     snd st = HBFixedToFloat (advs ! unat (lcs ! 0))"
  using assms
  by (auto simp: first_advance_def rd_def items_add split: option.splits if_splits)

lemma project_run_Some:
  assumes "project_run E shaperItem advs cnt isRTL out = Some out'"
  shows "items (outAdvances out') = items (outAdvances out) @
           HBFixedToFloat (advs ! unat (log_clusters shaperItem ! 0)) #
           map (\<lambda>i. if log_clusters shaperItem ! i = log_clusters shaperItem ! (i - 1) then 0
                     else HBFixedToFloat (advs ! unat (log_clusters shaperItem ! i))) [1..<cnt]"
    and "outTotalAdvance out' = HBFixedToFloat (advs ! unat (log_clusters shaperItem ! 0)) +
           (\<Sum>i\<leftarrow>[1..<cnt]. if log_clusters shaperItem ! i = log_clusters shaperItem ! (i - 1) then 0
                            else HBFixedToFloat (advs ! unat (log_clusters shaperItem ! i)))"
    and "0 < length (log_clusters shaperItem) \<and> unat (log_clusters shaperItem ! 0) < length advs"
    and "\<forall>i. 1 \<le> i \<and> i < cnt \<longrightarrow> i < length (log_clusters shaperItem) \<and>
           (log_clusters shaperItem ! i \<noteq> log_clusters shaperItem ! (i - 1) \<longrightarrow>
              unat (log_clusters shaperItem ! i) < length advs)"
    and "items (outGlyphs out') = items (outGlyphs out) @
           map (\<lambda>i. ucast (glyphs shaperItem !
                      (if \<not> isRTL then i else num_glyphs shaperItem - 1 - i)))
             [0..<num_glyphs shaperItem]"
    and "items (outLogClusters out') = items (outLogClusters out) @
           map (\<lambda>i. log_clusters shaperItem ! i + of_nat (length (items (outLogClusters out))))
             [0..<num_glyphs shaperItem]"
    and "num_glyphs shaperItem \<le> length (glyphs shaperItem)"
    and "num_glyphs shaperItem \<le> length (log_clusters shaperItem)"
proof -
  from assms obtain st0 advs' total glyphs' lcs' where
    first: "first_advance E advs (log_clusters shaperItem) (outAdvances out) = Some st0" and
    loop: "for_loop [1..<cnt] (advances_body E advs (log_clusters shaperItem)) st0 = Some (advs', total)" and
    gl: "for_loop [0..<num_glyphs shaperItem]
           (glyphs_body E (glyphs shaperItem) (num_glyphs shaperItem) isRTL) (outGlyphs out) = Some glyphs'" and
    lc: "for_loop [0..<num_glyphs shaperItem]
           (logClusters_body E (log_clusters shaperItem) (length (items (outLogClusters out))))
           (outLogClusters out) = Some lcs'" and
    out': "out' = \<lparr>outAdvances = advs', outTotalAdvance = total, outGlyphs = glyphs',
                   outLogClusters = lcs'\<rparr>"
    by (auto simp: project_run_def split: option.splits prod.splits)
  note F = first_advance_Some [OF first]
  note A = advances_loop [OF loop]
  note G = glyphs_loop [OF gl]
  note L = logClusters_loop [OF lc]
  show "items (outAdvances out') = items (outAdvances out) @
           HBFixedToFloat (advs ! unat (log_clusters shaperItem ! 0)) #
           map (\<lambda>i. if log_clusters shaperItem ! i = log_clusters shaperItem ! (i - 1) then 0
                     else HBFixedToFloat (advs ! unat (log_clusters shaperItem ! i))) [1..<cnt]"
    using F A by (simp add: out')
  show "outTotalAdvance out' = HBFixedToFloat (advs ! unat (log_clusters shaperItem ! 0)) +
           (\<Sum>i\<leftarrow>[1..<cnt]. if log_clusters shaperItem ! i = log_clusters shaperItem ! (i - 1) then 0
                            else HBFixedToFloat (advs ! unat (log_clusters shaperItem ! i)))"
    using F A by (simp add: out')
  show "0 < length (log_clusters shaperItem) \<and> unat (log_clusters shaperItem ! 0) < length advs"
    using F by simp
  show "\<forall>i. 1 \<le> i \<and> i < cnt \<longrightarrow> i < length (log_clusters shaperItem) \<and>
           (log_clusters shaperItem ! i \<noteq> log_clusters shaperItem ! (i - 1) \<longrightarrow>
              unat (log_clusters shaperItem ! i) < length advs)"
    using A by blast
  show "items (outGlyphs out') = items (outGlyphs out) @
           map (\<lambda>i. ucast (glyphs shaperItem !
                      (if \<not> isRTL then i else num_glyphs shaperItem - 1 - i)))
             [0..<num_glyphs shaperItem]"
    using G by (simp add: out')
  show "items (outLogClusters out') = items (outLogClusters out) @
           map (\<lambda>i. log_clusters shaperItem ! i + of_nat (length (items (outLogClusters out))))
             [0..<num_glyphs shaperItem]"
    using L by (simp add: out')
  show "num_glyphs shaperItem \<le> length (glyphs shaperItem)" using G by simp
  show "num_glyphs shaperItem \<le> length (log_clusters shaperItem)" using L by simp
qed







subsection \<open>The bidi driver\<close>

lemma fallback_isRTL_True: "fallback_isRTL bidiReq"
  by (simp add: fallback_isRTL_def assigned_def)

text \<open>
  Claim C2 is right about the intent and the code misses it. When the resolver cannot
  be opened and no direction is forced, the driver shapes one run over the whole context
  with \<open>isRTL\<close> true for every direction mode, also for the left-to-right ones: the
  two comparisons are written as assignments.
\<close>

theorem computeValuesWithHarfbuzz_fallback_always_RTL:
  assumes "\<not> ubidi_open E" and "dirs \<noteq> kBidi_Force_LTR" and "dirs \<noteq> kBidi_Force_RTL"
  shows "computeValuesWithHarfbuzz E paint chars contextCount dirs out =
     computeRunValuesWithHarfbuzz E paint chars 0 contextCount contextCount True out"
  using assms by (simp add: computeValuesWithHarfbuzz_def fallback_isRTL_True)

theorem computeValuesWithHarfbuzz_fallback_always_RTL_witness:
  "\<not> ubidi_open env_no_bidi \<and> kBidi_LTR \<noteq> kBidi_Force_LTR \<and> kBidi_LTR \<noteq> kBidi_Force_RTL \<and>
   computeValuesWithHarfbuzz env_no_bidi paint_plain text_Hi 2 kBidi_LTR empty_outputs =
     computeRunValuesWithHarfbuzz env_no_bidi paint_plain text_Hi 0 2 2 True empty_outputs \<and>
   map_option (\<lambda>out'. items (outGlyphs out'))
     (computeValuesWithHarfbuzz env_no_bidi paint_plain text_Hi 2 kBidi_LTR empty_outputs)
     = Some [105, 72]"
proof -
  have h1: "\<not> ubidi_open env_no_bidi"
    by (simp add: env_no_bidi_def env_plain_def)
  have h2: "kBidi_LTR \<noteq> kBidi_Force_LTR" and h3: "kBidi_LTR \<noteq> kBidi_Force_RTL"
    by (simp_all add: kBidi_LTR_def kBidi_Force_LTR_def kBidi_Force_RTL_def)
  have e: "map_option (\<lambda>out'. items (outGlyphs out'))
     (computeRunValuesWithHarfbuzz env_no_bidi paint_plain text_Hi 0 2 2 True empty_outputs)
     = Some [105, 72]"
    by code_simp
  from computeValuesWithHarfbuzz_fallback_always_RTL [OF h1 h2 h3, of paint_plain text_Hi 2 empty_outputs]
    h1 h2 h3 e
  show ?thesis by simp
qed

lemma computeRun_cases:
  assumes "computeRunValuesWithHarfbuzz E paint chars start cnt contextCount isRTL out = Some out'"
  obtains (empty) shaperItem where
      "shapeWithHarfbuzz E paint chars start cnt contextCount isRTL = Some shaperItem"
      "advances shaperItem = None \<or> num_glyphs shaperItem = 0"
      "out' = out\<lparr>outAdvances := insertAt (grow E) 0 (length (items (outAdvances out))) cnt
                                    (outAdvances out),
                   outTotalAdvance := 0\<rparr>"
  | (shaped) shaperItem advs where
      "shapeWithHarfbuzz E paint chars start cnt contextCount isRTL = Some shaperItem"
      "advances shaperItem = Some advs" "num_glyphs shaperItem \<noteq> 0"
      "project_run E shaperItem advs cnt isRTL out = Some out'"
  using assms
  by (auto simp: computeRunValuesWithHarfbuzz_def split: option.splits if_splits)

lemma computeRun_appends:
  assumes run: "computeRunValuesWithHarfbuzz E paint chars start cnt contextCount isRTL out = Some out'"
  shows "\<exists>xs. items (outAdvances out') = items (outAdvances out) @ xs \<and>
     outTotalAdvance out' = sum_list xs \<and>
     (0 < cnt \<or> empty_runs_unshaped E paint chars contextCount \<longrightarrow> length xs = cnt)"
proof -
  show "\<exists>xs. items (outAdvances out') = items (outAdvances out) @ xs \<and>
     outTotalAdvance out' = sum_list xs \<and>
     (0 < cnt \<or> empty_runs_unshaped E paint chars contextCount \<longrightarrow> length xs = cnt)"
    using run
  proof (cases rule: computeRun_cases)
    case (empty shaperItem)
    then show ?thesis
      by (intro exI [of _ "replicate cnt 0"]) (simp add: items_insertAt_end sum_list_replicate)
  next
    case (shaped shaperItem advs)
    note P = project_run_Some [OF shaped(4)]
    have "cnt \<noteq> 0" if "empty_runs_unshaped E paint chars contextCount"
      using that shaped(1-3) unfolding empty_runs_unshaped_def
      by (cases "cnt = 0") (fastforce, simp)
    then have len: "0 < cnt \<or> empty_runs_unshaped E paint chars contextCount \<longrightarrow> 0 < cnt"
      by auto
    show ?thesis
      apply (intro exI [of _ "HBFixedToFloat (advs ! unat (log_clusters shaperItem ! 0)) #
           map (\<lambda>i. if log_clusters shaperItem ! i = log_clusters shaperItem ! (i - 1) then 0
                     else HBFixedToFloat (advs ! unat (log_clusters shaperItem ! i))) [1..<cnt]"])
      using P(1) P(2) len by auto
  qed
qed

lemma computeRun_glyphs:
  assumes run: "computeRunValuesWithHarfbuzz E paint chars start cnt contextCount isRTL out = Some out'"
  shows "\<exists>k. length (items (outGlyphs out')) = length (items (outGlyphs out)) + k \<and>
     length (items (outLogClusters out')) = length (items (outLogClusters out)) + k"
  using run
proof (cases rule: computeRun_cases)
  case (empty shaperItem)
  then show ?thesis by simp
next
  case (shaped shaperItem advs)
  note P = project_run_Some [OF shaped(4)]
  show ?thesis
    by (rule exI [of _ "num_glyphs shaperItem"]) (simp add: P(5) P(6))
qed

lemma visual_run_body_Some:
  assumes "visual_run_body E paint chars contextCount bidi i out = Some out''"
  obtains out' where
    "computeRunValuesWithHarfbuzz E paint chars (fst (snd (ubidi_getVisualRun bidi i)))
       (snd (snd (ubidi_getVisualRun bidi i))) contextCount
       (fst (ubidi_getVisualRun bidi i) = UBIDI_RTL) (out\<lparr>outTotalAdvance := 0\<rparr>) = Some out'"
    "out'' = out'\<lparr>outTotalAdvance := outTotalAdvance out + outTotalAdvance out'\<rparr>"
  using assms
  by (auto simp: visual_run_body_def split: prod.splits option.splits)

lemma visual_runs_loop:
  assumes "for_loop ixs (visual_run_body E paint chars contextCount bidi) out = Some out'"
  shows "\<exists>xs ts k.
     items (outAdvances out') = items (outAdvances out) @ xs \<and>
     outTotalAdvance out' = outTotalAdvance out + sum_list xs \<and>
     (empty_runs_unshaped E paint chars contextCount \<longrightarrow>
        length xs = sum_list (map (\<lambda>i. snd (snd (ubidi_getVisualRun bidi i))) ixs)) \<and>
     visual_run_totals E paint chars contextCount bidi ixs out = Some ts \<and>
     length ts = length ixs \<and>
     outTotalAdvance out' = outTotalAdvance out + sum_list ts \<and>
     length (items (outGlyphs out')) = length (items (outGlyphs out)) + k \<and>
     length (items (outLogClusters out')) = length (items (outLogClusters out)) + k"
  using assms
proof (induction ixs arbitrary: out)
  case Nil
  then show ?case by simp
next
  case (Cons i ixs)
  from Cons.prems obtain mid where
    body: "visual_run_body E paint chars contextCount bidi i out = Some mid" and
    rest: "for_loop ixs (visual_run_body E paint chars contextCount bidi) mid = Some out'"
    by (auto split: option.splits)
  from body obtain run where
    run: "computeRunValuesWithHarfbuzz E paint chars (fst (snd (ubidi_getVisualRun bidi i)))
       (snd (snd (ubidi_getVisualRun bidi i))) contextCount
       (fst (ubidi_getVisualRun bidi i) = UBIDI_RTL) (out\<lparr>outTotalAdvance := 0\<rparr>) = Some run" and
    mid: "mid = run\<lparr>outTotalAdvance := outTotalAdvance out + outTotalAdvance run\<rparr>"
    by (rule visual_run_body_Some)
  from computeRun_appends [OF run] obtain xs1 where
    xs1: "items (outAdvances run) = items (outAdvances out) @ xs1"
      "outTotalAdvance run = sum_list xs1"
      "empty_runs_unshaped E paint chars contextCount \<longrightarrow>
         length xs1 = snd (snd (ubidi_getVisualRun bidi i))"
    by auto
  from computeRun_glyphs [OF run] obtain k1 where
    k1: "length (items (outGlyphs run)) = length (items (outGlyphs out)) + k1"
      "length (items (outLogClusters run)) = length (items (outLogClusters out)) + k1"
    by auto
  from Cons.IH [OF rest] obtain xs2 ts2 k2 where
    IH: "items (outAdvances out') = items (outAdvances mid) @ xs2"
      "outTotalAdvance out' = outTotalAdvance mid + sum_list xs2"
      "empty_runs_unshaped E paint chars contextCount \<longrightarrow>
        length xs2 = sum_list (map (\<lambda>i. snd (snd (ubidi_getVisualRun bidi i))) ixs)"
      "visual_run_totals E paint chars contextCount bidi ixs mid = Some ts2"
      "length ts2 = length ixs"
      "outTotalAdvance out' = outTotalAdvance mid + sum_list ts2"
      "length (items (outGlyphs out')) = length (items (outGlyphs mid)) + k2"
      "length (items (outLogClusters out')) = length (items (outLogClusters mid)) + k2"
    by blast
  have totals: "visual_run_totals E paint chars contextCount bidi (i # ixs) out
      = Some (outTotalAdvance run # ts2)"
  proof -
    obtain d st l where vr: "ubidi_getVisualRun bidi i = (d, st, l)"
      by (cases "ubidi_getVisualRun bidi i") auto
    with run IH(4) mid show ?thesis by simp
  qed
  have f1: "items (outAdvances out') = items (outAdvances out) @ xs1 @ xs2"
    using IH(1) xs1(1) mid by simp
  have f2: "outTotalAdvance out' = outTotalAdvance out + sum_list (xs1 @ xs2)"
    using IH(2) xs1(2) mid by simp
  have f3: "empty_runs_unshaped E paint chars contextCount \<longrightarrow> length (xs1 @ xs2) =
        sum_list (map (\<lambda>i. snd (snd (ubidi_getVisualRun bidi i))) (i # ixs))"
    using IH(3) xs1(3) by simp
  have f5: "length (outTotalAdvance run # ts2) = length (i # ixs)" using IH(5) by simp
  have f6: "outTotalAdvance out' = outTotalAdvance out + sum_list (outTotalAdvance run # ts2)"
    using IH(6) mid by simp
  have f7: "length (items (outGlyphs out')) = length (items (outGlyphs out)) + (k1 + k2)"
    using IH(7) k1(1) mid by simp
  have f8: "length (items (outLogClusters out')) = length (items (outLogClusters out)) + (k1 + k2)"
    using IH(8) k1(2) mid by simp
  show ?case
    apply (rule exI [of _ "xs1 @ xs2"])
    apply (rule exI [of _ "outTotalAdvance run # ts2"])
    apply (rule exI [of _ "k1 + k2"])
    using f1 f2 f3 totals f5 f6 f7 f8 by blast
qed

lemma computeValuesWithHarfbuzz_cases:
  assumes "computeValuesWithHarfbuzz E paint chars contextCount dirs out = Some out'"
  obtains (single) isRTL where
      "visual_runs E chars contextCount dirs = None"
      "computeRunValuesWithHarfbuzz E paint chars 0 contextCount contextCount isRTL out = Some out'"
  | (unset) "visual_runs E chars contextCount dirs = None" "out' = out"
      "\<not> runs_cover_context E chars contextCount dirs"
  | (multi) bidi rc where
      "visual_runs E chars contextCount dirs = Some (bidi, rc)"
      "for_loop [0..<rc] (visual_run_body E paint chars contextCount bidi) out = Some out'"
      "runs_cover_context E chars contextCount dirs \<longrightarrow>
         sum_list (map (\<lambda>i. snd (snd (ubidi_getVisualRun bidi i))) [0..<rc]) = contextCount"
proof (cases "dirs = kBidi_Force_LTR \<or> dirs = kBidi_Force_RTL")
  case True
  with assms have
    "computeRunValuesWithHarfbuzz E paint chars 0 contextCount contextCount
       (dirs = kBidi_Force_RTL) out = Some out'"
    by (simp add: computeValuesWithHarfbuzz_def Let_def)
  moreover from True have "visual_runs E chars contextCount dirs = None"
    by (simp add: visual_runs_def)
  ultimately show ?thesis by (rule single [rotated])
next
  case unforced: False
  show ?thesis
  proof (cases "ubidi_open E")
    case False
    with unforced assms have
      "computeRunValuesWithHarfbuzz E paint chars 0 contextCount contextCount
         (fallback_isRTL (bidiReq_of dirs)) out = Some out'"
      by (simp add: computeValuesWithHarfbuzz_def Let_def)
    moreover from False unforced have "visual_runs E chars contextCount dirs = None"
      by (simp add: visual_runs_def)
    ultimately show ?thesis by (rule single [rotated])
  next
    case opened: True
    obtain status bidi where
      para: "ubidi_setPara E chars contextCount (bidiReq_of dirs) = (status, bidi)"
      by (cases "ubidi_setPara E chars contextCount (bidiReq_of dirs)") auto
    obtain rc status' where runs: "ubidi_countRuns bidi = (rc, status')"
      by (cases "ubidi_countRuns bidi") auto
    show ?thesis
    proof (cases "U_SUCCESS status")
      case False
      with unforced opened para assms have "out' = out"
        by (simp add: computeValuesWithHarfbuzz_def Let_def)
      moreover from False unforced opened para
      have "visual_runs E chars contextCount dirs = None"
        and "\<not> runs_cover_context E chars contextCount dirs"
        by (simp_all add: visual_runs_def runs_cover_context_def)
      ultimately show ?thesis by (intro unset)
    next
      case ok: True
      show ?thesis
      proof (cases "rc = 1 \<or> \<not> U_SUCCESS status'")
        case True
        with unforced opened para runs ok assms have
          "computeRunValuesWithHarfbuzz E paint chars 0 contextCount contextCount
             (ubidi_getParaLevel bidi AND kDirection_Mask = 1) out = Some out'"
          by (simp add: computeValuesWithHarfbuzz_def Let_def)
        moreover from True unforced opened para runs ok
        have "visual_runs E chars contextCount dirs = None"
          by (simp add: visual_runs_def)
        ultimately show ?thesis by (rule single [rotated])
      next
        case False
        with unforced opened para runs ok assms have
          "for_loop [0..<rc] (visual_run_body E paint chars contextCount bidi) out = Some out'"
          by (simp add: computeValuesWithHarfbuzz_def Let_def)
        moreover from False unforced opened para runs ok
        have "visual_runs E chars contextCount dirs = Some (bidi, rc)"
          by (simp add: visual_runs_def)
        moreover from False unforced opened para runs ok
        have "runs_cover_context E chars contextCount dirs \<longrightarrow>
           sum_list (map (\<lambda>i. snd (snd (ubidi_getVisualRun bidi i))) [0..<rc]) = contextCount"
          by (simp add: runs_cover_context_def)
        ultimately show ?thesis by (intro multi)
      qed
    qed
  qed
qed

lemma for_loop_cong:
  "(\<And>i s. i \<in> set ixs \<Longrightarrow> body i s = body' i s) \<Longrightarrow> for_loop ixs body s = for_loop ixs body' s"
  by (induction ixs arbitrary: s) (auto split: option.splits)

lemma resum_advances:
  "for_loop [0..<length xs]
     (\<lambda>i total. case rd xs i of None \<Rightarrow> None | Some a \<Rightarrow> Some (total + a)) (t::jfloat)
   = Some (t + sum_list xs)"
proof (induction xs rule: rev_induct)
  case Nil
  then show ?case by simp
next
  case (snoc x xs)
  have "for_loop [0..<length xs]
          (\<lambda>i total. case rd (xs @ [x]) i of None \<Rightarrow> None | Some a \<Rightarrow> Some (total + a)) t
        = for_loop [0..<length xs]
          (\<lambda>i total. case rd xs i of None \<Rightarrow> None | Some a \<Rightarrow> Some (total + a)) t"
    by (rule for_loop_cong) (simp add: rd_def nth_append)
  with snoc.IH show ?case
    by (simp add: for_loop_append rd_def add.assoc)
qed

lemma outputs_of_new:
  "items (outAdvances (outputs_of n new_TextLayoutCacheValue)) = []"
  "outTotalAdvance (outputs_of n new_TextLayoutCacheValue) = 0"
  "items (outGlyphs (outputs_of n new_TextLayoutCacheValue)) = []"
  "items (outLogClusters (outputs_of n new_TextLayoutCacheValue)) = []"
  by (simp_all add: outputs_of_def new_TextLayoutCacheValue_def empty_Vector_def setCapacity_def)

lemma computeValuesWithHarfbuzz_fresh:
  assumes run: "computeValuesWithHarfbuzz E paint chars contextCount dirs out = Some out'"
    and fresh: "items (outAdvances out) = []" "outTotalAdvance out = 0"
      "items (outGlyphs out) = []" "items (outLogClusters out) = []"
  shows "outTotalAdvance out' = sum_list (items (outAdvances out')) \<and>
     (runs_cover_context E chars contextCount dirs \<and>
         empty_runs_unshaped E paint chars contextCount \<longrightarrow>
           length (items (outAdvances out')) = contextCount) \<and>
     (\<forall>bidi rc. visual_runs E chars contextCount dirs = Some (bidi, rc) \<longrightarrow>
           (\<exists>totals. visual_run_totals E paint chars contextCount bidi [0..<rc] out = Some totals \<and>
              length totals = rc \<and> outTotalAdvance out' = sum_list totals)) \<and>
     length (items (outGlyphs out')) = length (items (outLogClusters out'))"
  using run
proof (cases rule: computeValuesWithHarfbuzz_cases)
  case (single isRTL)
  from computeRun_appends [OF single(2)] computeRun_glyphs [OF single(2)] fresh single(1)
  show ?thesis by auto
next
  case unset
  with fresh show ?thesis by simp
next
  case (multi bidi rc)
  from visual_runs_loop [OF multi(2)] obtain xs ts k where
    L: "items (outAdvances out') = items (outAdvances out) @ xs"
      "outTotalAdvance out' = outTotalAdvance out + sum_list xs"
      "empty_runs_unshaped E paint chars contextCount \<longrightarrow>
        length xs = sum_list (map (\<lambda>i. snd (snd (ubidi_getVisualRun bidi i))) [0..<rc])"
      "visual_run_totals E paint chars contextCount bidi [0..<rc] out = Some ts"
      "length ts = length [0..<rc]"
      "outTotalAdvance out' = outTotalAdvance out + sum_list ts"
      "length (items (outGlyphs out')) = length (items (outGlyphs out)) + k"
      "length (items (outLogClusters out')) = length (items (outLogClusters out)) + k"
    by blast
  have a: "outTotalAdvance out' = sum_list (items (outAdvances out'))"
    using L(1,2) fresh by simp
  have b: "runs_cover_context E chars contextCount dirs \<and>
         empty_runs_unshaped E paint chars contextCount \<longrightarrow>
           length (items (outAdvances out')) = contextCount"
    using L(1,3) multi(3) fresh by simp
  have c: "\<forall>bidi rc. visual_runs E chars contextCount dirs = Some (bidi, rc) \<longrightarrow>
           (\<exists>totals. visual_run_totals E paint chars contextCount bidi [0..<rc] out = Some totals \<and>
              length totals = rc \<and> outTotalAdvance out' = sum_list totals)"
    using L(4,5,6) multi(1) fresh by simp
  have d: "length (items (outGlyphs out')) = length (items (outLogClusters out'))"
    using L(7,8) fresh by simp
  from a b c d show ?thesis by blast
qed

lemma one_to_one_empty_runs_unshaped:
  assumes "HB_ShapeItem E = shaper_one_to_one"
  shows "empty_runs_unshaped E paint chars contextCount"
proof -
  have "num_glyphs shaperItem = 0"
    if "shapeWithHarfbuzz E paint chars start 0 contextCount isRTL = Some shaperItem"
    for start isRTL shaperItem
  proof -
    let ?initial = "setupShaperItem E paint chars start 0 contextCount isRTL []"
    let ?first = "resetGlyphArrays (fst ?initial)"
    have len: "item_length ?first = 0"
      by (simp add: resetGlyphArrays_def setupShaperItem_def createGlyphArrays_def)
    then have "HB_ShapeItem E ?first = (True, fill_one_to_one ?first)"
      by (simp add: assms shaper_one_to_one_def)
    then have "shape_loop E ?first (snd ?initial) = Some (fill_one_to_one ?first, snd ?initial)"
      by (rule shape_loop_done)
    with that have "shaperItem = fill_one_to_one ?first"
      by (auto simp: shapeWithHarfbuzz_def shapeWithHarfbuzz_store_eq)
    with len show ?thesis
      by (simp add: fill_one_to_one_def Let_def)
  qed
  then show ?thesis
    unfolding empty_runs_unshaped_def by (intro allI impI disjI2)
qed

text \<open>
  The advances of the artifacts that \<open>computeValues\<close> builds. On every path the total
  advance is the sum of the advances (in exact arithmetic; the code adds floats), over
  several visual runs it is the sum of the totals of the runs, and the glyphs and the
  log clusters are equally many. On the paths that shape (the paragraph was set, or the
  direction is forced, or the resolver cannot be opened), when the lengths of the visual
  runs add up to the length of the context and the shaper gives no glyph for a run
  without code units, the advances have one entry per code unit and \<open>getTotalAdvance\<close>
  over all of them gives the total again.
\<close>

theorem computeValues_advances:
  assumes "computeValues E paint chars contextCount dirs new_TextLayoutCacheValue = Some v"
  shows
    "mTotalAdvance v = sum_list (items (mAdvances v)) \<and>
     (runs_cover_context E chars contextCount dirs \<and>
      empty_runs_unshaped E paint chars contextCount \<longrightarrow>
        length (items (mAdvances v)) = contextCount \<and>
        getTotalAdvance v 0 contextCount = Some (mTotalAdvance v)) \<and>
     (\<forall>bidi rc. visual_runs E chars contextCount dirs = Some (bidi, rc) \<longrightarrow>
        (\<exists>totals.
           visual_run_totals E paint chars contextCount bidi [0..<rc]
             (outputs_of contextCount new_TextLayoutCacheValue) = Some totals \<and>
           length totals = rc \<and> mTotalAdvance v = sum_list totals)) \<and>
     length (items (mGlyphs v)) = length (items (mLogClusters v))"
proof -
  from assms obtain out' where
    run: "computeValuesWithHarfbuzz E paint chars contextCount dirs
            (outputs_of contextCount new_TextLayoutCacheValue) = Some out'" and
    v: "v = new_TextLayoutCacheValue
          \<lparr>mAdvances := outAdvances out', mTotalAdvance := outTotalAdvance out',
           mGlyphs := outGlyphs out', mLogClusters := outLogClusters out'\<rparr>"
    by (auto simp: computeValues_def split: option.splits)
  from computeValuesWithHarfbuzz_fresh [OF run outputs_of_new]
  have F: "outTotalAdvance out' = sum_list (items (outAdvances out'))"
     "runs_cover_context E chars contextCount dirs \<and>
         empty_runs_unshaped E paint chars contextCount \<longrightarrow>
           length (items (outAdvances out')) = contextCount"
     "\<forall>bidi rc. visual_runs E chars contextCount dirs = Some (bidi, rc) \<longrightarrow>
           (\<exists>totals. visual_run_totals E paint chars contextCount bidi [0..<rc]
               (outputs_of contextCount new_TextLayoutCacheValue) = Some totals \<and>
              length totals = rc \<and> outTotalAdvance out' = sum_list totals)"
     "length (items (outGlyphs out')) = length (items (outLogClusters out'))"
    by blast+
  have total: "mTotalAdvance v = sum_list (items (mAdvances v))"
    using F(1) by (simp add: v)
  have len: "length (items (mAdvances v)) = contextCount \<and>
        getTotalAdvance v 0 contextCount = Some (mTotalAdvance v)"
    if "runs_cover_context E chars contextCount dirs \<and>
        empty_runs_unshaped E paint chars contextCount"
  proof -
    from that F(2) have l: "length (items (mAdvances v)) = contextCount" by (simp add: v)
    from resum_advances [of "items (mAdvances v)" 0] l total
    show ?thesis by (simp add: getTotalAdvance_def)
  qed
  from total len F(3) F(4) show ?thesis
    by (simp add: v)
qed

theorem computeValues_advances_witness:
  "computeValues env_two_runs paint_plain text_four 4 kBidi_RTL new_TextLayoutCacheValue
     = Some value_two_runs \<and>
   runs_cover_context env_two_runs text_four 4 kBidi_RTL \<and>
   empty_runs_unshaped env_two_runs paint_plain text_four 4 \<and>
   items (mAdvances value_two_runs) = [6, 6, 6, 6] \<and>
   mTotalAdvance value_two_runs = 24 \<and>
   getTotalAdvance value_two_runs 0 4 = Some 24 \<and>
   length (items (mGlyphs value_two_runs)) = length (items (mLogClusters value_two_runs))"
proof -
  have h: "computeValues env_two_runs paint_plain text_four 4 kBidi_RTL new_TextLayoutCacheValue
     = Some value_two_runs"
    unfolding value_two_runs_def by code_simp
  have c: "runs_cover_context env_two_runs text_four 4 kBidi_RTL"
    by code_simp
  have u: "empty_runs_unshaped env_two_runs paint_plain text_four 4"
    by (rule one_to_one_empty_runs_unshaped) (simp add: env_two_runs_def env_plain_def)
  have a: "items (mAdvances value_two_runs) = [6, 6, 6, 6]"
    unfolding value_two_runs_def by code_simp
  from computeValues_advances [OF h] h c u a show ?thesis
    by simp
qed

lemma getTotalAdvance_out_of_range:
  assumes "items (mAdvances v) = []" and "0 < cnt"
  shows "getTotalAdvance v 0 cnt = None"
proof -
  from assms(2) have "[0..<0 + cnt] = 0 # [1..<cnt]"
    by (simp add: upt_conv_Cons)
  then show ?thesis
    by (simp add: getTotalAdvance_def rd_def assms(1))
qed

text \<open>
  Claim C3 states what the code is meant to do, and the code misses it on one path.
  When the resolver opens, no direction is forced and \<^verbatim>\<open>ubidi_setPara\<close> leaves a
  failure status, the driver shapes nothing (the test of the status has no other
  branch): the artifact has no advance, no glyph and no log cluster and a total of 0,
  whatever the number of code units, and \<open>getTotalAdvance\<close> over the code units reads
  past the advances. On the paths beside it, where the resolver cannot be opened or the
  runs cannot be counted, the driver shapes one run over the whole context.
\<close>

theorem computeValues_unshaped_when_setPara_fails:
  assumes "ubidi_open E" and "dirs \<noteq> kBidi_Force_LTR" and "dirs \<noteq> kBidi_Force_RTL"
    and "\<not> U_SUCCESS (fst (ubidi_setPara E chars contextCount (bidiReq_of dirs)))"
  shows "\<exists>v. computeValues E paint chars contextCount dirs new_TextLayoutCacheValue = Some v \<and>
     items (mAdvances v) = [] \<and> mTotalAdvance v = 0 \<and>
     items (mGlyphs v) = [] \<and> items (mLogClusters v) = [] \<and>
     (0 < contextCount \<longrightarrow>
        length (items (mAdvances v)) \<noteq> contextCount \<and>
        getTotalAdvance v 0 contextCount = None)"
proof -
  let ?out = "outputs_of contextCount new_TextLayoutCacheValue"
  let ?v = "new_TextLayoutCacheValue
      \<lparr>mAdvances := outAdvances ?out, mTotalAdvance := outTotalAdvance ?out,
       mGlyphs := outGlyphs ?out, mLogClusters := outLogClusters ?out\<rparr>"
  obtain status bidi where
    para: "ubidi_setPara E chars contextCount (bidiReq_of dirs) = (status, bidi)"
    by (cases "ubidi_setPara E chars contextCount (bidiReq_of dirs)") auto
  with assms(4) have "\<not> U_SUCCESS status"
    by simp
  with assms(1-3) para
  have "computeValuesWithHarfbuzz E paint chars contextCount dirs ?out = Some ?out"
    by (simp add: computeValuesWithHarfbuzz_def Let_def)
  then have v: "computeValues E paint chars contextCount dirs new_TextLayoutCacheValue = Some ?v"
    by (simp add: computeValues_def)
  have e: "items (mAdvances ?v) = []" "mTotalAdvance ?v = 0" "items (mGlyphs ?v) = []"
    "items (mLogClusters ?v) = []"
    by (simp_all add: outputs_of_new)
  have "0 < contextCount \<longrightarrow>
        length (items (mAdvances ?v)) \<noteq> contextCount \<and> getTotalAdvance ?v 0 contextCount = None"
    using getTotalAdvance_out_of_range [OF e(1), of contextCount] e(1) by simp
  with v e show ?thesis
    by blast
qed

theorem computeValues_unshaped_when_setPara_fails_witness:
  "ubidi_open env_setPara_fails \<and> kBidi_LTR \<noteq> kBidi_Force_LTR \<and> kBidi_LTR \<noteq> kBidi_Force_RTL \<and>
   \<not> U_SUCCESS (fst (ubidi_setPara env_setPara_fails text_Hi 2 (bidiReq_of kBidi_LTR))) \<and>
   length text_Hi = 2 \<and>
   map_option (\<lambda>v. length (items (mAdvances v)))
     (computeValues env_setPara_fails paint_plain text_Hi 2 kBidi_LTR new_TextLayoutCacheValue)
     = Some 0 \<and>
   map_option (\<lambda>v. getTotalAdvance v 0 2)
     (computeValues env_setPara_fails paint_plain text_Hi 2 kBidi_LTR new_TextLayoutCacheValue)
     = Some None \<and>
   map_option (\<lambda>v. length (items (mAdvances v)))
     (computeValues env_no_bidi paint_plain text_Hi 2 kBidi_LTR new_TextLayoutCacheValue)
     = Some 2"
proof -
  have h1: "ubidi_open env_setPara_fails"
    by (simp add: env_setPara_fails_def env_plain_def)
  have h2: "kBidi_LTR \<noteq> kBidi_Force_LTR" and h3: "kBidi_LTR \<noteq> kBidi_Force_RTL"
    by (simp_all add: kBidi_LTR_def kBidi_Force_LTR_def kBidi_Force_RTL_def)
  have h4: "\<not> U_SUCCESS (fst (ubidi_setPara env_setPara_fails text_Hi 2 (bidiReq_of kBidi_LTR)))"
    by (simp add: env_setPara_fails_def U_SUCCESS_def U_ZERO_ERROR_def)
  have l: "length text_Hi = 2"
    by (simp add: text_Hi_def)
  have sibling: "map_option (\<lambda>v. length (items (mAdvances v)))
     (computeValues env_no_bidi paint_plain text_Hi 2 kBidi_LTR new_TextLayoutCacheValue)
     = Some 2"
    by code_simp
  from computeValues_unshaped_when_setPara_fails [OF h1 h2 h3 h4, of paint_plain]
  obtain v where
    "computeValues env_setPara_fails paint_plain text_Hi 2 kBidi_LTR new_TextLayoutCacheValue
       = Some v"
    "items (mAdvances v) = []" "getTotalAdvance v 0 2 = None"
    by auto
  with h1 h2 h3 h4 l sibling show ?thesis
    by simp
qed

subsection \<open>The cache and its byte budget\<close>

lemma on_entry_removed_eq:
  "on_entry_removed E key desc S = S\<lparr>mSize := mSize S - entry_size E (key, desc)\<rparr>"
  by (cases desc) (simp_all add: on_entry_removed_def entry_size_def)

lemma removeOldest_Cons:
  "mCache S = entry # rest \<Longrightarrow>
     removeOldest E S = S\<lparr>mCache := rest, mSize := mSize S - entry_size E entry\<rparr>"
  by (simp add: removeOldest_def on_entry_removed_eq)

lemma entry_size_le_mSize:
  "accounted E S \<Longrightarrow> entry \<in> set (mCache S) \<Longrightarrow> entry_size E entry \<le> mSize S"
  by (simp add: accounted_def member_le_sum_list)

lemma accounted_removeOldest:
  assumes "accounted E S"
  shows "accounted E (removeOldest E S)"
proof (cases "mCache S")
  case Nil
  with assms show ?thesis by (simp add: removeOldest_def)
next
  case (Cons entry rest)
  with assms show ?thesis
    by (simp add: removeOldest_Cons accounted_def)
qed

lemma evict_until_fits_accounted:
  assumes "accounted E S" and "needed \<le> mMaxSize S"
  shows "\<exists>S' j. evict_until_fits E needed S = Some S' \<and> accounted E S' \<and>
     mSize S' + needed \<le> mMaxSize S' \<and> mMaxSize S' = mMaxSize S \<and>
     j \<le> length (mCache S) \<and> mCache S' = drop j (mCache S) \<and>
     mSize S' = mSize S - sum_list (map (entry_size E) (take j (mCache S))) \<and>
     (\<forall>i<j. sum_list (map (entry_size E) (drop i (mCache S))) + needed > mMaxSize S)"
  using assms
proof (induction E needed S rule: evict_until_fits.induct)
  case (1 E needed S)
  show ?case
  proof (cases "mSize S + needed > mMaxSize S")
    case False
    with "1.prems" show ?thesis
      by (intro exI [of _ S] exI [of _ 0]) simp
  next
    case True
    have nonempty: "mCache S \<noteq> []"
    proof
      assume "mCache S = []"
      with "1.prems" have "mSize S = 0" by (simp add: accounted_def)
      with True "1.prems" show False by simp
    qed
    then obtain entry rest where cache: "mCache S = entry # rest"
      by (cases "mCache S") auto
    let ?S1 = "removeOldest E S"
    have S1: "?S1 = S\<lparr>mCache := rest, mSize := mSize S - entry_size E entry\<rparr>"
      using cache by (rule removeOldest_Cons)
    have acc1: "accounted E ?S1" using "1.prems"(1) by (rule accounted_removeOldest)
    have max1: "needed \<le> mMaxSize ?S1" using "1.prems"(2) by (simp add: S1)
    from "1.IH" [OF True nonempty acc1 max1] obtain S' j where
      IH: "evict_until_fits E needed ?S1 = Some S'" "accounted E S'"
        "mSize S' + needed \<le> mMaxSize S'" "mMaxSize S' = mMaxSize ?S1"
        "j \<le> length (mCache ?S1)" "mCache S' = drop j (mCache ?S1)"
        "mSize S' = mSize ?S1 - sum_list (map (entry_size E) (take j (mCache ?S1)))"
        "\<forall>i<j. sum_list (map (entry_size E) (drop i (mCache ?S1))) + needed > mMaxSize ?S1"
      by blast
    have step: "evict_until_fits E needed S = Some S'"
      using True nonempty IH(1) by (subst evict_until_fits.simps) simp
    have sum: "mSize S = sum_list (map (entry_size E) (mCache S))"
      using "1.prems"(1) by (simp add: accounted_def)
    have min: "sum_list (map (entry_size E) (drop i (mCache S))) + needed > mMaxSize S"
      if "i < Suc j" for i
    proof (cases i)
      case 0
      with True sum show ?thesis by simp
    next
      case (Suc i')
      with that IH(8) show ?thesis by (simp add: S1 cache)
    qed
    show ?thesis
      apply (rule exI [of _ S'])
      apply (rule exI [of _ "Suc j"])
      using step IH(2-7) min by (simp add: S1 cache)
  qed
qed

lemma fold_on_entry_removed:
  "fold (\<lambda>entry. on_entry_removed E (fst entry) (snd entry)) entries S =
     S\<lparr>mSize := mSize S - sum_list (map (entry_size E) entries)\<rparr>"
  by (induction entries arbitrary: S) (simp_all add: on_entry_removed_eq)

lemma clear_eq:
  "clear E S = S\<lparr>mCache := [], mSize := mSize S - sum_list (map (entry_size E) (mCache S))\<rparr>"
  by (simp add: clear_def fold_on_entry_removed)

lemma key_getSize_internalTextCopy:
  "key_getSize n (internalTextCopy key) = key_getSize n key"
  by (simp add: key_getSize_def internalTextCopy_def)

lemma getValue_cases:
  assumes "getValue E S paint chars cnt dirs = Some (S', r)"
  obtains (hit) val where
      "cache_get (mCache S) (new_TextLayoutCacheKey paint chars cnt dirs) = Some val"
      "S' = S" "r = Some val"
  | (oversize) val where
      "cache_get (mCache S) (new_TextLayoutCacheKey paint chars cnt dirs) = None"
      "computeValues E paint chars cnt dirs new_TextLayoutCacheValue = Some val"
      "key_getSize (sizeof_TextLayoutCacheKey E) (new_TextLayoutCacheKey paint chars cnt dirs)
         + value_getSize E val > mMaxSize S"
      "S' = S" "r = None"
  | (admitted) val S1 where
      "cache_get (mCache S) (new_TextLayoutCacheKey paint chars cnt dirs) = None"
      "computeValues E paint chars cnt dirs new_TextLayoutCacheValue = Some val"
      "key_getSize (sizeof_TextLayoutCacheKey E) (new_TextLayoutCacheKey paint chars cnt dirs)
         + value_getSize E val \<le> mMaxSize S"
      "evict_until_fits E
         (key_getSize (sizeof_TextLayoutCacheKey E) (new_TextLayoutCacheKey paint chars cnt dirs)
            + value_getSize E val) S = Some S1"
      "S' = S1\<lparr>mSize := mSize S1 +
                  (key_getSize (sizeof_TextLayoutCacheKey E)
                     (new_TextLayoutCacheKey paint chars cnt dirs) + value_getSize E val),
                mCache := cache_put (mCache S1)
                  (internalTextCopy (new_TextLayoutCacheKey paint chars cnt dirs)) (Some val)\<rparr>"
      "r = Some val"
  using assms
  unfolding getValue_def Let_def
  by (auto split: option.splits if_splits)

lemma budget_invariant_getValue:
  assumes inv: "budget_invariant E S"
    and get: "getValue E S paint chars cnt dirs = Some (S', r)"
  shows "budget_invariant E S'"
  using get
proof (cases rule: getValue_cases)
  case (hit val)
  with inv show ?thesis by simp
next
  case (oversize val)
  with inv show ?thesis by simp
next
  case (admitted val S1)
  let ?key = "new_TextLayoutCacheKey paint chars cnt dirs"
  let ?sz = "key_getSize (sizeof_TextLayoutCacheKey E) ?key + value_getSize E val"
  from inv have acc: "accounted E S" by (simp add: budget_invariant_def)
  from evict_until_fits_accounted [OF acc admitted(3)] admitted(4)
  have S1: "accounted E S1" "mSize S1 + ?sz \<le> mMaxSize S1"
    by auto
  have "entry_size E (internalTextCopy ?key, Some val) = ?sz"
    by (simp add: entry_size_def key_getSize_internalTextCopy)
  with S1 show ?thesis
    by (simp add: admitted(5) budget_invariant_def accounted_def cache_put_def)
qed

lemma getValue_returns:
  assumes inv: "budget_invariant E S"
    and val: "computeValues E paint chars cnt dirs new_TextLayoutCacheValue = Some val"
  shows "\<exists>S' r. getValue E S paint chars cnt dirs = Some (S', r)"
proof -
  let ?key = "new_TextLayoutCacheKey paint chars cnt dirs"
  let ?sz = "key_getSize (sizeof_TextLayoutCacheKey E) ?key + value_getSize E val"
  from inv have acc: "accounted E S" by (simp add: budget_invariant_def)
  show ?thesis
  proof (cases "cache_get (mCache S) ?key")
    case (Some hit)
    then show ?thesis by (simp add: getValue_def)
  next
    case None
    show ?thesis
    proof (cases "?sz \<le> mMaxSize S")
      case False
      with None val show ?thesis by (simp add: getValue_def Let_def)
    next
      case True
      from evict_until_fits_accounted [OF acc True] obtain S1 where
        "evict_until_fits E ?sz S = Some S1" by blast
      with None val True show ?thesis by (simp add: getValue_def Let_def)
    qed
  qed
qed

lemma budget_invariant_clear:
  assumes "budget_invariant E S"
  shows "budget_invariant E (clear E S) \<and> mSize (clear E S) = 0 \<and> mCache (clear E S) = []"
  using assms by (simp add: clear_eq budget_invariant_def accounted_def)

lemma setMaxSize_evicts:
  assumes "accounted E S"
  shows "\<exists>S' j. setMaxSize E n S = Some S' \<and> budget_invariant E S' \<and> mMaxSize S' = n \<and>
     mSize S' \<le> n \<and> j \<le> length (mCache S) \<and> mCache S' = drop j (mCache S) \<and>
     mSize S' = mSize S - sum_list (map (entry_size E) (take j (mCache S))) \<and>
     (\<forall>i<j. sum_list (map (entry_size E) (drop i (mCache S))) > n)"
proof -
  let ?S0 = "S\<lparr>mMaxSize := n\<rparr>"
  have acc: "accounted E ?S0"
    using assms by (simp add: accounted_def)
  have "0 \<le> mMaxSize ?S0" by simp
  from evict_until_fits_accounted [OF acc this] obtain S' j where
    E: "evict_until_fits E 0 ?S0 = Some S'" "accounted E S'"
    "mSize S' + 0 \<le> mMaxSize S'" "mMaxSize S' = mMaxSize ?S0" "j \<le> length (mCache ?S0)"
    "mCache S' = drop j (mCache ?S0)"
    "mSize S' = mSize ?S0 - sum_list (map (entry_size E) (take j (mCache ?S0)))"
    "\<forall>i<j. sum_list (map (entry_size E) (drop i (mCache ?S0))) + 0 > mMaxSize ?S0"
    by blast
  have 1: "setMaxSize E n S = Some S'"
    using E(1) by (simp add: setMaxSize_def removeOldests_def)
  have 2: "mMaxSize S' = n" using E(4) by simp
  have 3: "mSize S' \<le> n" using E(3) 2 by simp
  have 4: "budget_invariant E S'" using E(2) 3 2 by (simp add: budget_invariant_def)
  have 5: "j \<le> length (mCache S)" "mCache S' = drop j (mCache S)"
    "mSize S' = mSize S - sum_list (map (entry_size E) (take j (mCache S)))"
    using E(5,6,7) by simp_all
  have 6: "\<forall>i<j. sum_list (map (entry_size E) (drop i (mCache S))) > n"
    using E(8) by simp
  from 1 2 3 4 5 6 show ?thesis by blast
qed

text \<open>
  Claim C4. The budget invariant (\<open>mSize\<close> is at most \<open>mMaxSize\<close> and equals the sum
  of the accounted sizes of the entries in the store) holds for a new cache and after
  every public operation on a cache that satisfies it: after \<open>getValue\<close>, which returns
  whenever the computation of the artifact does; after \<open>clear\<close>; and after
  \<open>setMaxSize n\<close>, which always returns, evicts the \<open>j\<close> oldest entries for the least
  \<open>j\<close> that brings the remaining sizes within \<open>n\<close>, and lowers \<open>mSize\<close> by the
  accounted sizes of the evicted entries.
\<close>

theorem budget_invariant_public_operations:
  assumes "budget_invariant E S"
  shows
    "budget_invariant E new_TextLayoutCache \<and>
     (\<forall>S' r. getValue E S paint chars cnt dirs = Some (S', r) \<longrightarrow> budget_invariant E S') \<and>
     (\<forall>val. computeValues E paint chars cnt dirs new_TextLayoutCacheValue = Some val \<longrightarrow>
        (\<exists>S' r. getValue E S paint chars cnt dirs = Some (S', r))) \<and>
     budget_invariant E (clear E S) \<and> mSize (clear E S) = 0 \<and> mCache (clear E S) = [] \<and>
     (\<exists>S' j. setMaxSize E n S = Some S' \<and> budget_invariant E S' \<and> mMaxSize S' = n \<and>
        mSize S' \<le> n \<and> j \<le> length (mCache S) \<and> mCache S' = drop j (mCache S) \<and>
        mSize S' = mSize S - sum_list (map (entry_size E) (take j (mCache S))) \<and>
        (\<forall>i<j. sum_list (map (entry_size E) (drop i (mCache S))) > n))"
proof -
  have init: "budget_invariant E new_TextLayoutCache"
    by (simp add: budget_invariant_def accounted_def new_TextLayoutCache_def)
  from assms have acc: "accounted E S" by (simp add: budget_invariant_def)
  from init budget_invariant_getValue [OF assms] getValue_returns [OF assms]
    budget_invariant_clear [OF assms] setMaxSize_evicts [OF acc, of n]
  show ?thesis by blast
qed

theorem budget_invariant_public_operations_witness:
  "budget_invariant env_plain cache_Hi_four \<and>
   mSize cache_Hi_four = 236 \<and> length (mCache cache_Hi_four) = 2 \<and>
   map_option mSize (setMaxSize env_plain 150 cache_Hi_four) = Some 128 \<and>
   map_option (\<lambda>S'. length (mCache S')) (setMaxSize env_plain 150 cache_Hi_four) = Some 1 \<and>
   budget_invariant env_plain (clear env_plain cache_Hi_four) \<and>
   mSize (clear env_plain cache_Hi_four) = 0"
proof -
  have h: "budget_invariant env_plain cache_Hi_four"
    unfolding cache_Hi_four_def cache_Hi_def by code_simp
  have a: "mSize cache_Hi_four = 236" "length (mCache cache_Hi_four) = 2"
    unfolding cache_Hi_four_def cache_Hi_def by code_simp+
  have b: "map_option mSize (setMaxSize env_plain 150 cache_Hi_four) = Some 128"
    "map_option (\<lambda>S'. length (mCache S')) (setMaxSize env_plain 150 cache_Hi_four) = Some 1"
    unfolding cache_Hi_four_def cache_Hi_def by code_simp+
  from budget_invariant_public_operations [OF h, of paint_plain text_Hi 2 kBidi_LTR 150] h a b
  show ?thesis by simp
qed

text \<open>
  Claim C1, as the specification states it, fails: for an entry larger than the budget
  \<open>getValue\<close> clears the handle before returning it. With a budget of 32 bytes and
  an entry of 108 bytes the caller receives the null handle.
\<close>

theorem getValue_oversize_returns_null:
  "getValue env_plain cache_32 paint_plain text_Hi 2 kBidi_LTR = Some (cache_32, None) \<and>
   map_option
     (\<lambda>val. key_getSize (sizeof_TextLayoutCacheKey env_plain)
              (new_TextLayoutCacheKey paint_plain text_Hi 2 kBidi_LTR)
            + value_getSize env_plain val)
     (computeValues env_plain paint_plain text_Hi 2 kBidi_LTR new_TextLayoutCacheValue)
     = Some 108 \<and>
   mMaxSize cache_32 = 32"
  by code_simp

text \<open>
  Claim C1, amended. For every request that misses the store and whose computed entry
  size, the size of the key plus the size of the artifact, exceeds \<open>mMaxSize\<close>,
  \<open>getValue\<close> returns the null handle (the computed artifact is released), and the
  cache is unchanged: the entries, their order and \<open>mSize\<close>.
\<close>

theorem getValue_oversize:
  assumes "cache_get (mCache S) (new_TextLayoutCacheKey paint chars cnt dirs) = None"
    and "computeValues E paint chars cnt dirs new_TextLayoutCacheValue = Some val"
    and "key_getSize (sizeof_TextLayoutCacheKey E) (new_TextLayoutCacheKey paint chars cnt dirs)
           + value_getSize E val > mMaxSize S"
  shows "getValue E S paint chars cnt dirs = Some (S, None)"
  using assms by (simp add: getValue_def Let_def)

theorem getValue_oversize_witness:
  "cache_get (mCache cache_32) (new_TextLayoutCacheKey paint_plain text_Hi 2 kBidi_LTR) = None \<and>
   computeValues env_plain paint_plain text_Hi 2 kBidi_LTR new_TextLayoutCacheValue
     = Some (the (computeValues env_plain paint_plain text_Hi 2 kBidi_LTR new_TextLayoutCacheValue)) \<and>
   key_getSize (sizeof_TextLayoutCacheKey env_plain)
       (new_TextLayoutCacheKey paint_plain text_Hi 2 kBidi_LTR)
     + value_getSize env_plain
         (the (computeValues env_plain paint_plain text_Hi 2 kBidi_LTR new_TextLayoutCacheValue))
     > mMaxSize cache_32 \<and>
   getValue env_plain cache_32 paint_plain text_Hi 2 kBidi_LTR = Some (cache_32, None)"
proof -
  have h1: "cache_get (mCache cache_32) (new_TextLayoutCacheKey paint_plain text_Hi 2 kBidi_LTR) = None"
    by code_simp
  have h2: "computeValues env_plain paint_plain text_Hi 2 kBidi_LTR new_TextLayoutCacheValue
     = Some (the (computeValues env_plain paint_plain text_Hi 2 kBidi_LTR new_TextLayoutCacheValue))"
    by code_simp
  have h3: "key_getSize (sizeof_TextLayoutCacheKey env_plain)
       (new_TextLayoutCacheKey paint_plain text_Hi 2 kBidi_LTR)
     + value_getSize env_plain
         (the (computeValues env_plain paint_plain text_Hi 2 kBidi_LTR new_TextLayoutCacheValue))
     > mMaxSize cache_32"
    by code_simp
  from getValue_oversize [OF h1 h2 h3] h1 h2 h3 show ?thesis
    by simp
qed

end
